theory Spec2Isabelle
  imports Complex_Main
begin

section \<open>Data model shared by game.js and ai.js\<close>

text \<open>
  Both classes use the numeric constants \<open>EMPTY = 0\<close>, \<open>BLACK = 1\<close>, \<open>WHITE = 2\<close> for the
  contents of a cell and for the \<open>player\<close> argument. A board is an array of 8 rows of
  8 cells. Row and column indices are JavaScript numbers that can leave the range
  \<open>0..7\<close> while a line is scanned (\<open>r += dr\<close>), so they are integers here.
\<close>

datatype cell = EMPTY | BLACK | WHITE

type_synonym board = "cell list list"

definition BOARD_SIZE :: int where
  "BOARD_SIZE = 8"

text \<open>The eight scan directions, in the order both files list them.\<close>

definition directions :: "(int \<times> int) list" where
  "directions = [(-1, 0), (-1, 1), (0, 1), (1, 1), (1, 0), (1, -1), (0, -1), (-1, -1)]"

definition isValidPosition :: "int \<Rightarrow> int \<Rightarrow> bool" where
  "isValidPosition row col \<longleftrightarrow> row \<ge> 0 \<and> row < BOARD_SIZE \<and> col \<ge> 0 \<and> col < BOARD_SIZE"

text \<open>
  \<open>board[r][c]\<close> and \<open>board[r][c] = v\<close>. Every read and write of the modelled functions is
  either guarded by \<open>isValidPosition\<close> or runs under the loop bounds \<open>0 \<le> row, col < 8\<close>,
  so on a well-formed board no access is out of range.
\<close>

definition cellAt :: "board \<Rightarrow> int \<Rightarrow> int \<Rightarrow> cell" where
  "cellAt b r c = b ! nat r ! nat c"

definition setCell :: "board \<Rightarrow> int \<Rightarrow> int \<Rightarrow> cell \<Rightarrow> board" where
  "setCell b r c v = b[nat r := (b ! nat r)[nat c := v]]"

definition wf_board :: "board \<Rightarrow> bool" where
  "wf_board b \<longleftrightarrow> length b = 8 \<and> list_all (\<lambda>line. length line = 8) b"

text \<open>The cells in the order of the nested loops \<open>for row ... for col ...\<close> (row-major).\<close>

definition allPositions :: "(int \<times> int) list" where
  "allPositions = concat (map (\<lambda>row. map (\<lambda>col. (row, col)) [0..BOARD_SIZE - 1]) [0..BOARD_SIZE - 1])"

text \<open>A move object \<open>{ row, col, flips: flips.length }\<close>.\<close>

record move =
  move_row :: int
  move_col :: int
  move_flips :: nat

section \<open>game.js: class OthelloGame\<close>

text \<open>
  The fields of the game object that the rules read or write. The DOM elements and the
  calls that only draw (\<open>renderBoard\<close>, the animation classes and timers) do not touch
  these fields and are left out.
\<close>

record game =
  board :: board
  currentPlayer :: cell
  gameOver :: bool
  history :: "(board \<times> cell) list"
  showHints :: bool
  showAnimation :: bool
  difficulty :: int

text \<open>
  The \<open>while\<close> loop of \<open>getFlips\<close>: collect the run of opponent cells from \<open>(r, c)\<close> in
  direction \<open>(dr, dc)\<close>; the result is \<open>temp\<close> and the position where the loop stopped.
  The source only ever runs the loop with one of the eight non-zero directions; the
  test \<open>(dr, dc) \<noteq> (0, 0)\<close> makes the recursion total on the zero vector, for which the
  JavaScript loop would not advance.
\<close>

function game_scan ::
  "board \<Rightarrow> cell \<Rightarrow> int \<Rightarrow> int \<Rightarrow> int \<Rightarrow> int \<Rightarrow> (int \<times> int) list \<Rightarrow> (int \<times> int) list \<times> int \<times> int"
where
  "game_scan b opponent dr dc r c temp =
     (if isValidPosition r c \<and> cellAt b r c = opponent \<and> (dr, dc) \<noteq> (0, 0)
      then game_scan b opponent dr dc (r + dr) (c + dc) (temp @ [(r, c)])
      else (temp, r, c))"
  by pat_completeness auto
termination
  by (relation "measure (\<lambda>(b, opponent, dr, dc, r, c, temp).
        if dr > 0 then nat (BOARD_SIZE - r) else if dr < 0 then nat (r + 1)
        else if dc > 0 then nat (BOARD_SIZE - c) else nat (c + 1))")
     (auto simp: isValidPosition_def BOARD_SIZE_def)

declare game_scan.simps [simp del]

definition game_getFlips :: "game \<Rightarrow> int \<Rightarrow> int \<Rightarrow> cell \<Rightarrow> (int \<times> int) list" where
  "game_getFlips g row col player =
     (if cellAt (board g) row col \<noteq> EMPTY then []
      else
        let opponent = (if player = BLACK then WHITE else BLACK) in
        foldl (\<lambda>flips (dr, dc).
                 case game_scan (board g) opponent dr dc (row + dr) (col + dc) [] of
                   (temp, r, c) \<Rightarrow>
                     if isValidPosition r c \<and> cellAt (board g) r c = player \<and> length temp > 0
                     then flips @ temp else flips)
              [] directions)"

definition game_getValidMoves :: "game \<Rightarrow> cell \<Rightarrow> move list" where
  "game_getValidMoves g player =
     concat (map (\<lambda>(row, col).
        if cellAt (board g) row col = EMPTY then
          let flips = game_getFlips g row col player in
          if length flips > 0
          then [\<lparr>move_row = row, move_col = col, move_flips = length flips\<rparr>] else []
        else []) allPositions)"

text \<open>
  \<open>makeMove\<close> returns a boolean and writes to \<open>this.board\<close>; the model returns the boolean
  together with the game object after the call.
\<close>

definition makeMove :: "game \<Rightarrow> int \<Rightarrow> int \<Rightarrow> cell \<Rightarrow> bool \<times> game" where
  "makeMove g row col player =
     (if cellAt (board g) row col \<noteq> EMPTY then (False, g)
      else
        let flips = game_getFlips g row col player in
        if length flips = 0 then (False, g)
        else
          let b1 = setCell (board g) row col player;
              b2 = foldl (\<lambda>b (r, c). setCell b r c player) b1 flips
          in (True, g\<lparr>board := b2\<rparr>))"

definition countStones :: "game \<Rightarrow> nat \<times> nat" where
  "countStones g =
     foldl (\<lambda>(black, white) (row, col).
              if cellAt (board g) row col = BLACK then (black + 1, white)
              else if cellAt (board g) row col = WHITE then (black, white + 1)
              else (black, white))
           (0, 0) allPositions"

definition copyBoard :: "game \<Rightarrow> board" where
  "copyBoard g = map (\<lambda>line. line) (board g)"

text \<open>The board and the fields that \<open>newGame\<close> sets; the settings keep their values.\<close>

definition newBoard :: board where
  "newBoard =
     (let b0 = replicate (nat BOARD_SIZE) (replicate (nat BOARD_SIZE) EMPTY);
          mid = BOARD_SIZE div 2;
          b1 = setCell b0 (mid - 1) (mid - 1) WHITE;
          b2 = setCell b1 (mid - 1) mid BLACK;
          b3 = setCell b2 mid (mid - 1) BLACK;
          b4 = setCell b3 mid mid WHITE
      in b4)"

definition newGame :: "game \<Rightarrow> game" where
  "newGame g = g\<lparr>board := newBoard, currentPlayer := BLACK, gameOver := False, history := []\<rparr>"

text \<open>The object as the constructor and the first \<open>newGame\<close> leave it.\<close>

definition initialGame :: game where
  "initialGame = newGame \<lparr>board = [], currentPlayer = BLACK, gameOver = False, history = [],
     showHints = True, showAnimation = True, difficulty = 2\<rparr>"

section \<open>ai.js: class OthelloAI\<close>

text \<open>
  JavaScript numbers as the search uses them: the integer scores of the evaluation and
  the two infinities that initialise \<open>alpha\<close>, \<open>beta\<close>, \<open>maxScore\<close>, \<open>minScore\<close> and
  \<open>bestScore\<close>.
\<close>

datatype jsnum = NegInf | Fin int | PosInf

instantiation jsnum :: linorder
begin

fun less_eq_jsnum :: "jsnum \<Rightarrow> jsnum \<Rightarrow> bool" where
  "less_eq_jsnum NegInf y = True"
| "less_eq_jsnum (Fin a) NegInf = False"
| "less_eq_jsnum (Fin a) (Fin b) = (a \<le> b)"
| "less_eq_jsnum (Fin a) PosInf = True"
| "less_eq_jsnum PosInf NegInf = False"
| "less_eq_jsnum PosInf (Fin b) = False"
| "less_eq_jsnum PosInf PosInf = True"

definition less_jsnum :: "jsnum \<Rightarrow> jsnum \<Rightarrow> bool" where
  "less_jsnum x y \<longleftrightarrow> x \<le> y \<and> \<not> y \<le> x"

instance
proof
  fix x y z :: jsnum
  show "(x < y) = (x \<le> y \<and> \<not> y \<le> x)"
    by (simp add: less_jsnum_def)
  show "x \<le> x"
    by (cases x) simp_all
  show "x \<le> y \<Longrightarrow> y \<le> z \<Longrightarrow> x \<le> z"
    by (cases x; cases y; cases z) simp_all
  show "x \<le> y \<Longrightarrow> y \<le> x \<Longrightarrow> x = y"
    by (cases x; cases y) simp_all
  show "x \<le> y \<or> y \<le> x"
    by (cases x; cases y) auto
qed

end

definition positionWeights :: "int list list" where
  "positionWeights =
     [[100, -20,  10,   5,   5,  10, -20, 100],
      [-20, -50,  -2,  -2,  -2,  -2, -50, -20],
      [ 10,  -2,   5,   1,   1,   5,  -2,  10],
      [  5,  -2,   1,   0,   0,   1,  -2,   5],
      [  5,  -2,   1,   0,   0,   1,  -2,   5],
      [ 10,  -2,   5,   1,   1,   5,  -2,  10],
      [-20, -50,  -2,  -2,  -2,  -2, -50, -20],
      [100, -20,  10,   5,   5,  10, -20, 100]]"

definition maxDepth :: nat where
  "maxDepth = 4"

text \<open>
  The \<open>while\<close> loop of the AI's own \<open>getFlips\<close>, written a second time in ai.js; the
  recursion is made total on the zero vector as for \<open>game_scan\<close>.
\<close>

function ai_scan ::
  "board \<Rightarrow> cell \<Rightarrow> int \<Rightarrow> int \<Rightarrow> int \<Rightarrow> int \<Rightarrow> (int \<times> int) list \<Rightarrow> (int \<times> int) list \<times> int \<times> int"
where
  "ai_scan b opponent dr dc r c temp =
     (if isValidPosition r c \<and> cellAt b r c = opponent \<and> (dr, dc) \<noteq> (0, 0)
      then ai_scan b opponent dr dc (r + dr) (c + dc) (temp @ [(r, c)])
      else (temp, r, c))"
  by pat_completeness auto
termination
  by (relation "measure (\<lambda>(b, opponent, dr, dc, r, c, temp).
        if dr > 0 then nat (BOARD_SIZE - r) else if dr < 0 then nat (r + 1)
        else if dc > 0 then nat (BOARD_SIZE - c) else nat (c + 1))")
     (auto simp: isValidPosition_def BOARD_SIZE_def)

declare ai_scan.simps [simp del]

text \<open>The AI's \<open>getFlips\<close> has no test of the target cell.\<close>

definition ai_getFlips :: "board \<Rightarrow> int \<Rightarrow> int \<Rightarrow> cell \<Rightarrow> (int \<times> int) list" where
  "ai_getFlips b row col player =
     (let opponent = (if player = WHITE then BLACK else WHITE) in
      foldl (\<lambda>flips (dr, dc).
               case ai_scan b opponent dr dc (row + dr) (col + dc) [] of
                 (temp, r, c) \<Rightarrow>
                   if isValidPosition r c \<and> cellAt b r c = player \<and> length temp > 0
                   then flips @ temp else flips)
            [] directions)"

text \<open>
  \<open>makeTestMove\<close> writes to the array it is given: it places the disc first and only then
  asks \<open>getFlips\<close> for the discs to turn. The model returns the array after the call.
  The \<open>game\<close> argument of \<open>makeTestMove\<close>, \<open>getValidMovesForBoard\<close> and \<open>minimax\<close> is never
  used by them and is left out.
\<close>

definition makeTestMove :: "board \<Rightarrow> int \<Rightarrow> int \<Rightarrow> cell \<Rightarrow> board" where
  "makeTestMove b row col player =
     (let b1 = setCell b row col player;
          flips = ai_getFlips b1 row col player
      in foldl (\<lambda>b (r, c). setCell b r c player) b1 flips)"

definition ai_getValidMovesForBoard :: "board \<Rightarrow> cell \<Rightarrow> move list" where
  "ai_getValidMovesForBoard b player =
     concat (map (\<lambda>(row, col).
        if cellAt b row col = EMPTY then
          let flips = ai_getFlips b row col player in
          if length flips > 0
          then [\<lparr>move_row = row, move_col = col, move_flips = length flips\<rparr>] else []
        else []) allPositions)"

definition ai_copyBoard :: "board \<Rightarrow> board" where
  "ai_copyBoard b = map (\<lambda>line. line) b"

text \<open>The \<open>while\<close> loop of \<open>canPlaceStone\<close>, which only remembers whether it advanced.\<close>

function canPlace_scan ::
  "board \<Rightarrow> cell \<Rightarrow> int \<Rightarrow> int \<Rightarrow> int \<Rightarrow> int \<Rightarrow> bool \<Rightarrow> bool \<times> int \<times> int"
where
  "canPlace_scan b opponent dr dc r c hasOpponent =
     (if isValidPosition r c \<and> cellAt b r c = opponent \<and> (dr, dc) \<noteq> (0, 0)
      then canPlace_scan b opponent dr dc (r + dr) (c + dc) True
      else (hasOpponent, r, c))"
  by pat_completeness auto
termination
  by (relation "measure (\<lambda>(b, opponent, dr, dc, r, c, hasOpponent).
        if dr > 0 then nat (BOARD_SIZE - r) else if dr < 0 then nat (r + 1)
        else if dc > 0 then nat (BOARD_SIZE - c) else nat (c + 1))")
     (auto simp: isValidPosition_def BOARD_SIZE_def)

declare canPlace_scan.simps [simp del]

text \<open>The \<open>for\<close> loop of \<open>canPlaceStone\<close> with its early \<open>return true\<close>.\<close>

fun canPlace_dirs :: "board \<Rightarrow> int \<Rightarrow> int \<Rightarrow> cell \<Rightarrow> cell \<Rightarrow> (int \<times> int) list \<Rightarrow> bool" where
  "canPlace_dirs b row col player opponent [] = False"
| "canPlace_dirs b row col player opponent ((dr, dc) # ds) =
     (case canPlace_scan b opponent dr dc (row + dr) (col + dc) False of
        (hasOpponent, r, c) \<Rightarrow>
          if hasOpponent \<and> isValidPosition r c \<and> cellAt b r c = player then True
          else canPlace_dirs b row col player opponent ds)"

definition canPlaceStone :: "board \<Rightarrow> int \<Rightarrow> int \<Rightarrow> cell \<Rightarrow> bool" where
  "canPlaceStone b row col player =
     (if cellAt b row col \<noteq> EMPTY then False
      else
        let opponent = (if player = WHITE then BLACK else WHITE) in
        canPlace_dirs b row col player opponent directions)"

definition countMobility :: "board \<Rightarrow> cell \<Rightarrow> int" where
  "countMobility b player =
     foldl (\<lambda>count (row, col).
              if cellAt b row col = EMPTY then
                (if canPlaceStone b row col player then count + 1 else count)
              else count)
           0 allPositions"

text \<open>
  \<open>evaluateBoard\<close>. The phase \<open>totalStones / 64\<close> is a rational here. In the source it is a
  double compared with the double nearest to \<open>0.7\<close>; \<open>totalStones\<close> is an integer between
  0 and 64, the quotient by 64 is exact, and no \<open>k / 64\<close> lies between \<open>7/10\<close> and that
  double, so both comparisons come out as they do on the rationals.
\<close>

definition evalStep :: "board \<Rightarrow> cell \<Rightarrow> cell \<Rightarrow> int \<times> int \<times> int \<Rightarrow> int \<times> int \<Rightarrow> int \<times> int \<times> int" where
  "evalStep b player opponent acc pos =
     (case acc of (score, playerStones, opponentStones) \<Rightarrow>
      case pos of (row, col) \<Rightarrow>
        if cellAt b row col = player
        then (score + positionWeights ! nat row ! nat col, playerStones + 1, opponentStones)
        else if cellAt b row col = opponent
        then (score - positionWeights ! nat row ! nat col, playerStones, opponentStones + 1)
        else (score, playerStones, opponentStones))"

definition cornerStep :: "board \<Rightarrow> cell \<Rightarrow> cell \<Rightarrow> int \<Rightarrow> int \<times> int \<Rightarrow> int" where
  "cornerStep b player opponent score pos =
     (case pos of (row, col) \<Rightarrow>
        if cellAt b row col = player then score + 100
        else if cellAt b row col = opponent then score - 100
        else score)"

definition evaluateBoard :: "board \<Rightarrow> cell \<Rightarrow> int" where
  "evaluateBoard b player =
     (let opponent = (if player = WHITE then BLACK else WHITE) in
      case foldl (evalStep b player opponent) (0, 0, 0) allPositions of
        (score1, playerStones, opponentStones) \<Rightarrow>
          let totalStones = playerStones + opponentStones;
              gamePhase = (of_int totalStones :: rat) / of_int (BOARD_SIZE * BOARD_SIZE);
              score2 = (if gamePhase > 7 / 10
                        then score1 + (playerStones - opponentStones) * 10 else score1);
              score3 = (if gamePhase < 7 / 10
                        then score2 + (countMobility b player - countMobility b opponent) * 5
                        else score2);
              corners = [(0, 0), (0, 7), (7, 0), (7, 7)]
          in foldl (cornerStep b player opponent) score3 corners)"

text \<open>
  The two \<open>for\<close> loops of \<open>minimax\<close> over the moves of a node; \<open>child move alpha beta\<close> is
  the recursive call on the board after \<open>move\<close>. The loop stops at the \<open>break\<close>.
\<close>

fun max_loop :: "(move \<Rightarrow> jsnum \<Rightarrow> jsnum \<Rightarrow> jsnum) \<Rightarrow> move list \<Rightarrow> jsnum \<Rightarrow> jsnum \<Rightarrow> jsnum \<Rightarrow> jsnum" where
  "max_loop child [] maxScore alpha beta = maxScore"
| "max_loop child (m # ms) maxScore alpha beta =
     (let score = child m alpha beta;
          maxScore' = max maxScore score;
          alpha' = max alpha score
      in if beta \<le> alpha' then maxScore' else max_loop child ms maxScore' alpha' beta)"

fun min_loop :: "(move \<Rightarrow> jsnum \<Rightarrow> jsnum \<Rightarrow> jsnum) \<Rightarrow> move list \<Rightarrow> jsnum \<Rightarrow> jsnum \<Rightarrow> jsnum \<Rightarrow> jsnum" where
  "min_loop child [] minScore alpha beta = minScore"
| "min_loop child (m # ms) minScore alpha beta =
     (let score = child m alpha beta;
          minScore' = min minScore score;
          beta' = min beta score
      in if beta' \<le> alpha then minScore' else min_loop child ms minScore' alpha beta')"

fun minimax :: "board \<Rightarrow> nat \<Rightarrow> bool \<Rightarrow> jsnum \<Rightarrow> jsnum \<Rightarrow> cell \<Rightarrow> jsnum" where
  "minimax b 0 maximizing alpha beta player = Fin (evaluateBoard b player)"
| "minimax b (Suc d) maximizing alpha beta player =
     (let currentPlayer = (if maximizing then player else (if player = WHITE then BLACK else WHITE));
          validMoves = ai_getValidMovesForBoard b currentPlayer
      in
        if length validMoves = 0 then
          (let opponent = (if player = WHITE then BLACK else WHITE);
               opponentMoves = ai_getValidMovesForBoard b opponent
           in
             if length opponentMoves = 0 then Fin (evaluateBoard b player)
             else minimax b d (\<not> maximizing) alpha beta player)
        else if maximizing then
          max_loop (\<lambda>move alpha beta.
                      minimax (makeTestMove (ai_copyBoard b) (move_row move) (move_col move) currentPlayer)
                        d False alpha beta player)
                   validMoves NegInf alpha beta
        else
          min_loop (\<lambda>move alpha beta.
                      minimax (makeTestMove (ai_copyBoard b) (move_row move) (move_col move) currentPlayer)
                        d True alpha beta player)
                   validMoves PosInf alpha beta)"

text \<open>
  The loop of \<open>selectMinimaxMove\<close> over the root moves, with \<open>bestMove\<close> (\<open>null\<close> is
  \<open>None\<close>), \<open>bestScore\<close> and \<open>alpha\<close> as loop state. The root moves come from
  \<open>game.getValidMoves\<close>, the trial boards from the \<open>board\<close> argument.
\<close>

fun selectMinimax_loop ::
  "board \<Rightarrow> cell \<Rightarrow> move list \<Rightarrow> move option \<Rightarrow> jsnum \<Rightarrow> jsnum \<Rightarrow> jsnum \<Rightarrow> move option \<times> jsnum"
where
  "selectMinimax_loop b player [] bestMove bestScore alpha beta = (bestMove, bestScore)"
| "selectMinimax_loop b player (m # ms) bestMove bestScore alpha beta =
     (let testBoard = makeTestMove (ai_copyBoard b) (move_row m) (move_col m) player;
          score = minimax testBoard (maxDepth - 1) False alpha beta player;
          best = (if score > bestScore then (Some m, score) else (bestMove, bestScore));
          alpha' = max alpha score
      in selectMinimax_loop b player ms (fst best) (snd best) alpha' beta)"

definition selectMinimaxMove :: "board \<Rightarrow> cell \<Rightarrow> game \<Rightarrow> move option" where
  "selectMinimaxMove b player g =
     fst (selectMinimax_loop b player (game_getValidMoves g player) None NegInf NegInf PosInf)"

section \<open>Notions used to state the properties\<close>

text \<open>The index of a cell in row-major order, as \<open>makeMove\<close> computes it for the DOM.\<close>

definition cellIndex :: "int \<Rightarrow> int \<Rightarrow> int" where
  "cellIndex row col = row * BOARD_SIZE + col"

definition diagonalNeighbours :: "int \<Rightarrow> int \<Rightarrow> (int \<times> int) list" where
  "diagonalNeighbours row col =
     [(row - 1, col - 1), (row - 1, col + 1), (row + 1, col - 1), (row + 1, col + 1)]"

text \<open>
  A position in which Black cannot move and White can: White on the corner (0,0), Black
  on (0,1), every other cell empty.
\<close>

definition passBoard :: board where
  "passBoard = setCell (setCell (replicate 8 (replicate 8 EMPTY)) 0 0 WHITE) 0 1 BLACK"

text \<open>
  What one direction contributes to the list that \<open>getFlips\<close> of game.js builds: the
  body of its \<open>for\<close> loop for the direction \<open>d\<close>.
\<close>

definition lineFlips :: "board \<Rightarrow> cell \<Rightarrow> cell \<Rightarrow> int \<Rightarrow> int \<Rightarrow> int \<times> int \<Rightarrow> (int \<times> int) list" where
  "lineFlips b player opponent row col d =
     (case d of (dr, dc) \<Rightarrow>
      case game_scan b opponent dr dc (row + dr) (col + dc) [] of
        (temp, r, c) \<Rightarrow>
          if isValidPosition r c \<and> cellAt b r c = player \<and> length temp > 0 then temp else [])"

text \<open>The component of the result of \<open>countStones\<close> that counts the discs of \<open>player\<close>.\<close>

definition stonesOf :: "cell \<Rightarrow> nat \<times> nat \<Rightarrow> nat" where
  "stonesOf player score = (case score of (black, white) \<Rightarrow> if player = BLACK then black else white)"

text \<open>A trial board: \<open>copyBoard\<close> followed by \<open>makeTestMove\<close> on the copy.\<close>

abbreviation trialBoard :: "board \<Rightarrow> int \<Rightarrow> int \<Rightarrow> cell \<Rightarrow> board" where
  "trialBoard b row col player \<equiv> makeTestMove (ai_copyBoard b) row col player"

text \<open>
  The reference of the pruning claim, written from the words of the specification: a
  full-width minimax with no alpha-beta cutoffs over the same row-major child ordering.
  At depth 0 it evaluates the board for \<open>rootSide\<close>. Otherwise \<open>turnSide\<close> is \<open>rootSide\<close> if
  \<open>maximizing\<close> and its opponent if not. If \<open>turnSide\<close> has no legal move, the position is
  terminal when the opponent of \<open>turnSide\<close> has none either, and a forced pass otherwise
  (depth decreased by one, \<open>maximizing\<close> flipped). If moves exist, every child is searched
  and the maximum or minimum of their values is returned. At the root the move with the
  strictly greatest value is kept, the first one seen on ties. Legal moves, move
  application and evaluation are those of ai.js.
\<close>

fun fullMinimax :: "board \<Rightarrow> nat \<Rightarrow> bool \<Rightarrow> cell \<Rightarrow> jsnum" where
  "fullMinimax b 0 maximizing rootSide = Fin (evaluateBoard b rootSide)"
| "fullMinimax b (Suc d) maximizing rootSide =
     (let turnSide = (if maximizing then rootSide else (if rootSide = WHITE then BLACK else WHITE));
          moves = ai_getValidMovesForBoard b turnSide
      in
        if moves = [] then
          (if ai_getValidMovesForBoard b (if turnSide = WHITE then BLACK else WHITE) = []
           then Fin (evaluateBoard b rootSide)
           else fullMinimax b d (\<not> maximizing) rootSide)
        else if maximizing then
          foldl max NegInf
            (map (\<lambda>move. fullMinimax (makeTestMove (ai_copyBoard b) (move_row move) (move_col move) turnSide)
                           d False rootSide)
                 moves)
        else
          foldl min PosInf
            (map (\<lambda>move. fullMinimax (makeTestMove (ai_copyBoard b) (move_row move) (move_col move) turnSide)
                           d True rootSide)
                 moves))"

fun fullSelect_loop ::
  "board \<Rightarrow> cell \<Rightarrow> move list \<Rightarrow> move option \<Rightarrow> jsnum \<Rightarrow> move option \<times> jsnum"
where
  "fullSelect_loop b side [] bestMove bestScore = (bestMove, bestScore)"
| "fullSelect_loop b side (m # ms) bestMove bestScore =
     (let childBoard = makeTestMove (ai_copyBoard b) (move_row m) (move_col m) side;
          score = fullMinimax childBoard (maxDepth - 1) False side;
          best = (if score > bestScore then (Some m, score) else (bestMove, bestScore))
      in fullSelect_loop b side ms (fst best) (snd best))"

definition fullSelectMove :: "board \<Rightarrow> cell \<Rightarrow> game \<Rightarrow> move option" where
  "fullSelectMove b side g =
     fst (fullSelect_loop b side (game_getValidMoves g side) None NegInf)"

text \<open>
  A game played from the opening position, as a list of \<open>makeMove\<close> calls; \<open>None\<close> if one
  of them is rejected.
\<close>

fun playMoves :: "game \<Rightarrow> (cell \<times> int \<times> int) list \<Rightarrow> game option" where
  "playMoves g [] = Some g"
| "playMoves g ((player, row, col) # ms) =
     (case makeMove g row col player of
        (True, g') \<Rightarrow> playMoves g' ms
      | (False, g') \<Rightarrow> None)"

text \<open>
  A game of 57 moves in which the two sides alternate without a pass, and the board
  after it: three cells are empty and White is to move.
\<close>

definition endgameMoves :: "(cell \<times> int \<times> int) list" where
  "endgameMoves =
     [(BLACK, 2, 3), (WHITE, 4, 2), (BLACK, 5, 2), (WHITE, 2, 4),
      (BLACK, 4, 1), (WHITE, 2, 2), (BLACK, 4, 5), (WHITE, 5, 4),
      (BLACK, 6, 3), (WHITE, 6, 4), (BLACK, 1, 2), (WHITE, 3, 2),
      (BLACK, 6, 5), (WHITE, 1, 3), (BLACK, 3, 1), (WHITE, 2, 5),
      (BLACK, 5, 5), (WHITE, 3, 0), (BLACK, 1, 5), (WHITE, 5, 3),
      (BLACK, 6, 2), (WHITE, 3, 5), (BLACK, 1, 4), (WHITE, 0, 5),
      (BLACK, 1, 6), (WHITE, 0, 7), (BLACK, 2, 6), (WHITE, 2, 7),
      (BLACK, 4, 0), (WHITE, 5, 0), (BLACK, 1, 7), (WHITE, 2, 0),
      (BLACK, 2, 1), (WHITE, 3, 6), (BLACK, 4, 6), (WHITE, 0, 2),
      (BLACK, 3, 7), (WHITE, 4, 7), (BLACK, 5, 7), (WHITE, 7, 5),
      (BLACK, 6, 6), (WHITE, 7, 7), (BLACK, 1, 1), (WHITE, 0, 0),
      (BLACK, 5, 1), (WHITE, 5, 6), (BLACK, 7, 6), (WHITE, 1, 0),
      (BLACK, 0, 1), (WHITE, 6, 7), (BLACK, 7, 4), (WHITE, 7, 1),
      (BLACK, 7, 2), (WHITE, 7, 3), (BLACK, 0, 3), (WHITE, 0, 6),
      (BLACK, 6, 1)]"

definition endgameBoard :: board where
  "endgameBoard =
     [[WHITE, BLACK, BLACK, BLACK, EMPTY, WHITE, WHITE, WHITE],
      [WHITE, BLACK, BLACK, BLACK, BLACK, WHITE, WHITE, WHITE],
      [WHITE, BLACK, WHITE, WHITE, WHITE, WHITE, WHITE, WHITE],
      [WHITE, BLACK, WHITE, WHITE, WHITE, BLACK, WHITE, WHITE],
      [WHITE, BLACK, WHITE, WHITE, WHITE, WHITE, WHITE, WHITE],
      [WHITE, BLACK, BLACK, WHITE, BLACK, WHITE, WHITE, WHITE],
      [EMPTY, BLACK, BLACK, BLACK, BLACK, BLACK, BLACK, WHITE],
      [EMPTY, WHITE, WHITE, WHITE, WHITE, WHITE, WHITE, WHITE]]"

definition endgameGame :: game where
  "endgameGame = initialGame\<lparr>board := endgameBoard\<rparr>"

text \<open>
  The search of ai.js itself with the two \<open>break\<close> statements removed, so that every
  child of a node is searched; \<open>alpha\<close> and \<open>beta\<close> then decide nothing and are left out.
  This is not the reference of the specification: nodes without a legal move are
  treated as the code treats them. It serves to separate what the cutoffs do from what
  the treatment of such nodes does.
\<close>

fun unprunedMinimax :: "board \<Rightarrow> nat \<Rightarrow> bool \<Rightarrow> cell \<Rightarrow> jsnum" where
  "unprunedMinimax b 0 maximizing player = Fin (evaluateBoard b player)"
| "unprunedMinimax b (Suc d) maximizing player =
     (let currentPlayer = (if maximizing then player else (if player = WHITE then BLACK else WHITE));
          validMoves = ai_getValidMovesForBoard b currentPlayer
      in
        if length validMoves = 0 then
          (let opponent = (if player = WHITE then BLACK else WHITE);
               opponentMoves = ai_getValidMovesForBoard b opponent
           in
             if length opponentMoves = 0 then Fin (evaluateBoard b player)
             else unprunedMinimax b d (\<not> maximizing) player)
        else if maximizing then
          foldl max NegInf
            (map (\<lambda>move. unprunedMinimax (makeTestMove (ai_copyBoard b) (move_row move) (move_col move) currentPlayer)
                           d False player)
                 validMoves)
        else
          foldl min PosInf
            (map (\<lambda>move. unprunedMinimax (makeTestMove (ai_copyBoard b) (move_row move) (move_col move) currentPlayer)
                           d True player)
                 validMoves))"

fun unprunedSelect_loop ::
  "board \<Rightarrow> cell \<Rightarrow> move list \<Rightarrow> move option \<Rightarrow> jsnum \<Rightarrow> move option \<times> jsnum"
where
  "unprunedSelect_loop b player [] bestMove bestScore = (bestMove, bestScore)"
| "unprunedSelect_loop b player (m # ms) bestMove bestScore =
     (let testBoard = makeTestMove (ai_copyBoard b) (move_row m) (move_col m) player;
          score = unprunedMinimax testBoard (maxDepth - 1) False player;
          best = (if score > bestScore then (Some m, score) else (bestMove, bestScore))
      in unprunedSelect_loop b player ms (fst best) (snd best))"

definition unprunedSelectMove :: "board \<Rightarrow> cell \<Rightarrow> game \<Rightarrow> move option" where
  "unprunedSelectMove b player g =
     fst (unprunedSelect_loop b player (game_getValidMoves g player) None NegInf)"

section \<open>The opening position\<close>

lemma initialGame_board: "board initialGame = newBoard"
  by (simp add: initialGame_def newGame_def)

lemma wf_newBoard: "wf_board newBoard"
  by code_simp

lemma wf_initialGame: "wf_board (board initialGame)"
  by (simp only: initialGame_board wf_newBoard)

text \<open>
  C9. On the board that \<open>newGame\<close> sets up (White on (3,3) and (4,4), Black on (3,4) and
  (4,3), every other cell empty) \<open>getValidMoves\<close> for Black returns exactly four moves,
  (2,3), (3,2), (4,5) and (5,4), each turning one disc, and each of them has exactly one
  occupied diagonal neighbour, a disc of the centre cluster.
\<close>

theorem opening_moves:
  "board initialGame =
     [[EMPTY, EMPTY, EMPTY, EMPTY, EMPTY, EMPTY, EMPTY, EMPTY],
      [EMPTY, EMPTY, EMPTY, EMPTY, EMPTY, EMPTY, EMPTY, EMPTY],
      [EMPTY, EMPTY, EMPTY, EMPTY, EMPTY, EMPTY, EMPTY, EMPTY],
      [EMPTY, EMPTY, EMPTY, WHITE, BLACK, EMPTY, EMPTY, EMPTY],
      [EMPTY, EMPTY, EMPTY, BLACK, WHITE, EMPTY, EMPTY, EMPTY],
      [EMPTY, EMPTY, EMPTY, EMPTY, EMPTY, EMPTY, EMPTY, EMPTY],
      [EMPTY, EMPTY, EMPTY, EMPTY, EMPTY, EMPTY, EMPTY, EMPTY],
      [EMPTY, EMPTY, EMPTY, EMPTY, EMPTY, EMPTY, EMPTY, EMPTY]]
   \<and> game_getValidMoves initialGame BLACK =
     [\<lparr>move_row = 2, move_col = 3, move_flips = 1\<rparr>, \<lparr>move_row = 3, move_col = 2, move_flips = 1\<rparr>,
      \<lparr>move_row = 4, move_col = 5, move_flips = 1\<rparr>, \<lparr>move_row = 5, move_col = 4, move_flips = 1\<rparr>]
   \<and> length (game_getValidMoves initialGame BLACK) = 4
   \<and> map move_flips (game_getValidMoves initialGame BLACK) = [1, 1, 1, 1]
   \<and> map (\<lambda>m. filter (\<lambda>(r, c). cellAt (board initialGame) r c \<noteq> EMPTY)
                 (diagonalNeighbours (move_row m) (move_col m)))
         (game_getValidMoves initialGame BLACK)
      = [[(3, 4)], [(4, 3)], [(3, 4)], [(4, 3)]]"
  by code_simp

section \<open>Rejected moves\<close>

text \<open>
  C7. If the target cell is occupied, or it is empty and \<open>getFlips\<close> finds nothing to turn
  in any of the eight directions, \<open>makeMove\<close> reports the illegal move (it returns
  \<open>false\<close>) and the game object, its board included, is as it was before the call.
\<close>

theorem illegal_move_rejected:
  assumes "wf_board (board g)" and "isValidPosition row col"
    and "cellAt (board g) row col \<noteq> EMPTY
         \<or> (cellAt (board g) row col = EMPTY \<and> game_getFlips g row col player = [])"
  shows "makeMove g row col player = (False, g)"
  using assms(3) by (auto simp: makeMove_def)

text \<open>On the opening position: the occupied cell (3,3) and the corner (0,0), which turns nothing.\<close>

theorem illegal_move_rejected_witness:
  "wf_board (board initialGame) \<and> isValidPosition 3 3 \<and> cellAt (board initialGame) 3 3 \<noteq> EMPTY
   \<and> makeMove initialGame 3 3 BLACK = (False, initialGame)
   \<and> isValidPosition 0 0 \<and> cellAt (board initialGame) 0 0 = EMPTY
   \<and> game_getFlips initialGame 0 0 BLACK = []
   \<and> makeMove initialGame 0 0 BLACK = (False, initialGame)"
proof -
  have v1: "isValidPosition 3 3" by code_simp
  have v2: "isValidPosition 0 0" by code_simp
  have o: "cellAt (board initialGame) 3 3 \<noteq> EMPTY" by code_simp
  have e: "cellAt (board initialGame) 0 0 = EMPTY" by code_simp
  have f: "game_getFlips initialGame 0 0 BLACK = []" by code_simp
  show ?thesis
    using wf_initialGame v1 v2 o e f
      illegal_move_rejected [of initialGame 3 3 BLACK]
      illegal_move_rejected [of initialGame 0 0 BLACK]
    by simp
qed

section \<open>The two copies of the flip computation\<close>

lemma ai_scan_eq_game_scan:
  "ai_scan b opponent dr dc r c temp = game_scan b opponent dr dc r c temp"
proof (induction b opponent dr dc r c temp rule: game_scan.induct)
  case (1 b opponent dr dc r c temp)
  show ?case
  proof (cases "isValidPosition r c \<and> cellAt b r c = opponent \<and> (dr, dc) \<noteq> (0, 0)")
    case True
    then show ?thesis
      using 1 by (subst ai_scan.simps, subst game_scan.simps) simp
  next
    case False
    then show ?thesis
      by (subst ai_scan.simps, subst game_scan.simps) auto
  qed
qed

lemma ai_getFlips_eq_game:
  assumes "cellAt (board g) row col = EMPTY" and "player = BLACK \<or> player = WHITE"
  shows "ai_getFlips (board g) row col player = game_getFlips g row col player"
  using assms by (auto simp: ai_getFlips_def game_getFlips_def ai_scan_eq_game_scan)

text \<open>
  C10. On an empty target cell, and for a side Black or White, the AI's \<open>getFlips\<close>
  returns the same list (same positions, same order) as the game's \<open>getFlips\<close> on the
  same board.
\<close>

theorem getFlips_agree:
  assumes "wf_board (board g)" and "isValidPosition row col"
    and "cellAt (board g) row col = EMPTY" and "player = BLACK \<or> player = WHITE"
  shows "ai_getFlips (board g) row col player = game_getFlips g row col player"
  using assms(3,4) by (rule ai_getFlips_eq_game)

theorem getFlips_agree_witness:
  "wf_board (board initialGame) \<and> isValidPosition 2 3 \<and> cellAt (board initialGame) 2 3 = EMPTY
   \<and> ai_getFlips (board initialGame) 2 3 BLACK = game_getFlips initialGame 2 3 BLACK
   \<and> game_getFlips initialGame 2 3 BLACK = [(3, 3)]"
proof -
  have v: "isValidPosition 2 3" by code_simp
  have e: "cellAt (board initialGame) 2 3 = EMPTY" by code_simp
  have f: "game_getFlips initialGame 2 3 BLACK = [(3, 3)]" by code_simp
  show ?thesis
    using wf_initialGame v e f getFlips_agree [of initialGame 2 3 BLACK] by simp
qed

section \<open>Enumeration of the legal moves\<close>

lemma move_positions_filter:
  "map (\<lambda>m. (move_row m, move_col m))
     (concat (map (\<lambda>(row, col).
        if cellAt b row col = EMPTY then
          let flips = F row col in
          if length flips > 0
          then [\<lparr>move_row = row, move_col = col, move_flips = length flips\<rparr>] else []
        else []) ps))
   = filter (\<lambda>(row, col). cellAt b row col = EMPTY \<and> F row col \<noteq> []) ps"
  by (induction ps) (auto simp: Let_def split: if_splits)

lemma move_in_concat:
  assumes "m \<in> set (concat (map (\<lambda>(row, col).
        if cellAt b row col = EMPTY then
          let flips = F row col in
          if length flips > 0
          then [\<lparr>move_row = row, move_col = col, move_flips = length flips\<rparr>] else []
        else []) ps))"
  shows "(move_row m, move_col m) \<in> set ps \<and> cellAt b (move_row m) (move_col m) = EMPTY
         \<and> F (move_row m) (move_col m) \<noteq> []
         \<and> move_flips m = length (F (move_row m) (move_col m))"
  using assms by (induction ps) (auto simp: Let_def split: if_splits)

lemma allPositions_sorted:
  "sorted_wrt (<) (map (\<lambda>(row, col). cellIndex row col) allPositions)"
  by code_simp

lemma allPositions_valid: "(row, col) \<in> set allPositions \<longleftrightarrow> isValidPosition row col"
  by (force simp: allPositions_def isValidPosition_def BOARD_SIZE_def)

lemma row_major_of_filter:
  assumes "map (\<lambda>m. (move_row m, move_col m)) ms = filter P allPositions"
  shows "sorted_wrt (<) (map (\<lambda>m. cellIndex (move_row m) (move_col m)) ms)"
proof -
  have "map (\<lambda>m. cellIndex (move_row m) (move_col m)) ms
        = map (\<lambda>(row, col). cellIndex row col) (map (\<lambda>m. (move_row m, move_col m)) ms)"
    by simp
  also have "\<dots> = map (\<lambda>(row, col). cellIndex row col) (filter P allPositions)"
    by (simp only: assms)
  finally show ?thesis
    using allPositions_sorted
    by (simp add: sorted_wrt_map sorted_wrt_filter del: map_map)
qed

text \<open>
  C8. Every move that \<open>getValidMoves\<close> (game.js) or \<open>getValidMovesForBoard\<close> (ai.js) emits
  lies on the board and targets an empty cell, the flip list of that cell for the side
  is non-empty, the move's \<open>flips\<close> field is the length of that list, and the moves come
  in strictly increasing row-major index.
\<close>

theorem legal_moves_consistent:
  "(\<forall>m \<in> set (game_getValidMoves g player).
      isValidPosition (move_row m) (move_col m)
      \<and> cellAt (board g) (move_row m) (move_col m) = EMPTY
      \<and> game_getFlips g (move_row m) (move_col m) player \<noteq> []
      \<and> move_flips m = length (game_getFlips g (move_row m) (move_col m) player))
   \<and> sorted_wrt (<) (map (\<lambda>m. cellIndex (move_row m) (move_col m)) (game_getValidMoves g player))
   \<and> (\<forall>m \<in> set (ai_getValidMovesForBoard b player).
      isValidPosition (move_row m) (move_col m)
      \<and> cellAt b (move_row m) (move_col m) = EMPTY
      \<and> ai_getFlips b (move_row m) (move_col m) player \<noteq> []
      \<and> move_flips m = length (ai_getFlips b (move_row m) (move_col m) player))
   \<and> sorted_wrt (<) (map (\<lambda>m. cellIndex (move_row m) (move_col m)) (ai_getValidMovesForBoard b player))"
proof (intro conjI ballI)
  fix m assume "m \<in> set (game_getValidMoves g player)"
  from move_in_concat [OF this [unfolded game_getValidMoves_def]]
  show "isValidPosition (move_row m) (move_col m)"
    and "cellAt (board g) (move_row m) (move_col m) = EMPTY"
    and "game_getFlips g (move_row m) (move_col m) player \<noteq> []"
    and "move_flips m = length (game_getFlips g (move_row m) (move_col m) player)"
    by (simp_all add: allPositions_valid)
next
  fix m assume "m \<in> set (ai_getValidMovesForBoard b player)"
  from move_in_concat [OF this [unfolded ai_getValidMovesForBoard_def]]
  show "isValidPosition (move_row m) (move_col m)"
    and "cellAt b (move_row m) (move_col m) = EMPTY"
    and "ai_getFlips b (move_row m) (move_col m) player \<noteq> []"
    and "move_flips m = length (ai_getFlips b (move_row m) (move_col m) player)"
    by (simp_all add: allPositions_valid)
next
  show "sorted_wrt (<) (map (\<lambda>m. cellIndex (move_row m) (move_col m)) (game_getValidMoves g player))"
    unfolding game_getValidMoves_def by (rule row_major_of_filter [OF move_positions_filter])
next
  show "sorted_wrt (<) (map (\<lambda>m. cellIndex (move_row m) (move_col m)) (ai_getValidMovesForBoard b player))"
    unfolding ai_getValidMovesForBoard_def by (rule row_major_of_filter [OF move_positions_filter])
qed

theorem legal_moves_consistent_witness:
  "\<lparr>move_row = 2, move_col = 3, move_flips = 1\<rparr> \<in> set (game_getValidMoves initialGame BLACK)
   \<and> \<lparr>move_row = 2, move_col = 3, move_flips = 1\<rparr> \<in> set (ai_getValidMovesForBoard newBoard BLACK)
   \<and> isValidPosition 2 3 \<and> cellAt (board initialGame) 2 3 = EMPTY
   \<and> game_getFlips initialGame 2 3 BLACK \<noteq> []
   \<and> 1 = length (game_getFlips initialGame 2 3 BLACK)
   \<and> cellAt newBoard 2 3 = EMPTY
   \<and> ai_getFlips newBoard 2 3 BLACK \<noteq> []
   \<and> 1 = length (ai_getFlips newBoard 2 3 BLACK)
   \<and> sorted_wrt (<) (map (\<lambda>m. cellIndex (move_row m) (move_col m)) (game_getValidMoves initialGame BLACK))
   \<and> sorted_wrt (<) (map (\<lambda>m. cellIndex (move_row m) (move_col m)) (ai_getValidMovesForBoard newBoard BLACK))"
proof -
  have g: "\<lparr>move_row = 2, move_col = 3, move_flips = 1\<rparr> \<in> set (game_getValidMoves initialGame BLACK)"
    by code_simp
  have a: "\<lparr>move_row = 2, move_col = 3, move_flips = 1\<rparr> \<in> set (ai_getValidMovesForBoard newBoard BLACK)"
    by code_simp
  show ?thesis
    using g a legal_moves_consistent [of initialGame BLACK newBoard] by force
qed

section \<open>The evaluation function\<close>

lemma evalStep_swap_step:
  "evalStep b WHITE BLACK (- s, q, p) x =
     (case evalStep b BLACK WHITE (s, p, q) x of (s1, p1, q1) \<Rightarrow> (- s1, q1, p1))"
proof -
  obtain row col where x: "x = (row, col)" by (cases x)
  show ?thesis
    by (cases "cellAt b row col") (simp_all add: x evalStep_def)
qed

lemma evalStep_swap:
  "foldl (evalStep b BLACK WHITE) (s, p, q) ps = (s', p', q')
   \<Longrightarrow> foldl (evalStep b WHITE BLACK) (- s, q, p) ps = (- s', q', p')"
proof (induction ps arbitrary: s p q)
  case Nil
  then show ?case by simp
next
  case (Cons x xs)
  obtain s1 p1 q1 where st: "evalStep b BLACK WHITE (s, p, q) x = (s1, p1, q1)"
    by (metis prod_cases3)
  have "evalStep b WHITE BLACK (- s, q, p) x = (- s1, q1, p1)"
    by (simp add: evalStep_swap_step st)
  moreover have "foldl (evalStep b WHITE BLACK) (- s1, q1, p1) xs = (- s', q', p')"
    using Cons.prems by (intro Cons.IH) (simp add: st)
  ultimately show ?case by simp
qed

lemma cornerStep_swap:
  "foldl (cornerStep b WHITE BLACK) (- s) ps = - foldl (cornerStep b BLACK WHITE) s ps"
proof (induction ps arbitrary: s)
  case Nil
  then show ?case by simp
next
  case (Cons x xs)
  obtain row col where x: "x = (row, col)" by (cases x)
  have "foldl (cornerStep b WHITE BLACK) (- cornerStep b BLACK WHITE s x) xs
        = - foldl (cornerStep b BLACK WHITE) (cornerStep b BLACK WHITE s x) xs"
    by (rule Cons.IH)
  moreover have "cornerStep b WHITE BLACK (- s) x = - cornerStep b BLACK WHITE s x"
    by (cases "cellAt b row col") (auto simp: x cornerStep_def)
  ultimately show ?case by simp
qed

text \<open>
  C5. For every board, \<open>evaluateBoard\<close> for Black is the negation of \<open>evaluateBoard\<close> for
  White: the positional sum, the disc differential, the mobility differential and the
  corner term change sign, and the phase is the same in both calls.
\<close>

theorem evaluate_antisymmetric:
  "evaluateBoard b BLACK = - evaluateBoard b WHITE"
proof -
  obtain s p q where f: "foldl (evalStep b BLACK WHITE) (0, 0, 0) allPositions = (s, p, q)"
    by (metis prod_cases3)
  have g: "foldl (evalStep b WHITE BLACK) (0, 0, 0) allPositions = (- s, q, p)"
    using evalStep_swap [OF f] by simp
  define phase where "phase = (of_int (p + q) :: rat) / of_int (BOARD_SIZE * BOARD_SIZE)"
  define s2 where "s2 = (if phase > 7 / 10 then s + (p - q) * 10 else s)"
  define s3 where "s3 = (if phase < 7 / 10
                         then s2 + (countMobility b BLACK - countMobility b WHITE) * 5 else s2)"
  have phase': "(of_int (q + p) :: rat) / of_int (BOARD_SIZE * BOARD_SIZE) = phase"
    by (simp add: phase_def add.commute)
  have n2: "(if phase > 7 / 10 then - s + (q - p) * 10 else - s) = - s2"
    by (simp add: s2_def)
  have n3: "(if phase < 7 / 10
             then - s2 + (countMobility b WHITE - countMobility b BLACK) * 5 else - s2) = - s3"
    by (simp add: s3_def)
  have black: "evaluateBoard b BLACK = foldl (cornerStep b BLACK WHITE) s3 [(0, 0), (0, 7), (7, 0), (7, 7)]"
    by (simp only: evaluateBoard_def Let_def cell.distinct if_False if_True simp_thms f
          prod.case s3_def s2_def phase_def)
  have white: "evaluateBoard b WHITE = foldl (cornerStep b WHITE BLACK) (- s3) [(0, 0), (0, 7), (7, 0), (7, 7)]"
    by (simp only: evaluateBoard_def Let_def cell.distinct if_False if_True simp_thms g
          prod.case phase' n2 n3)
  show ?thesis
    by (simp only: black white cornerStep_swap)
qed


section \<open>Nodes of the search without a legal move\<close>

lemma minimax_min_node_without_moves:
  assumes "ai_getValidMovesForBoard b (if player = WHITE then BLACK else WHITE) = []"
  shows "minimax b (Suc d) False alpha beta player = Fin (evaluateBoard b player)"
  using assms by (simp add: Let_def)

lemma minimax_max_node_without_moves:
  assumes "ai_getValidMovesForBoard b player = []"
  shows "minimax b (Suc d) True alpha beta player =
           (if ai_getValidMovesForBoard b (if player = WHITE then BLACK else WHITE) = []
            then Fin (evaluateBoard b player)
            else minimax b d False alpha beta player)"
  using assms by (simp add: Let_def)

lemma passBoard_black_moves: "ai_getValidMovesForBoard passBoard BLACK = []"
  by code_simp

lemma passBoard_white_moves:
  "ai_getValidMovesForBoard passBoard WHITE = [\<lparr>move_row = 0, move_col = 2, move_flips = 1\<rparr>]"
  by code_simp

lemma passBoard_eval: "evaluateBoard passBoard WHITE = 225"
  by code_simp

lemma passBoard_child_eval:
  "evaluateBoard (makeTestMove (ai_copyBoard passBoard) 0 2 WHITE) WHITE = 190"
  by code_simp

lemma passBoard_pass_value: "minimax passBoard 1 True NegInf PosInf WHITE = Fin 190"
  by (simp add: Let_def passBoard_white_moves passBoard_child_eval)

text \<open>
  C1, at the input where the code departs from it. On \<open>passBoard\<close> Black has no move
  and White has one. At the minimizing node for root side White (Black to move) with
  depth 2 the search returns the static evaluation 225 of the node, although the
  opponent of the side to move can move; the forced pass, the search at depth 1 with
  \<open>maximizing\<close> flipped and the same window, has the value 190.
\<close>

theorem minimax_min_node_never_passes:
  "wf_board passBoard
   \<and> ai_getValidMovesForBoard passBoard BLACK = []
   \<and> ai_getValidMovesForBoard passBoard WHITE \<noteq> []
   \<and> minimax passBoard 2 False NegInf PosInf WHITE = Fin (evaluateBoard passBoard WHITE)
   \<and> minimax passBoard 2 False NegInf PosInf WHITE = Fin 225
   \<and> minimax passBoard 1 True NegInf PosInf WHITE = Fin 190"
proof -
  have w: "wf_board passBoard" by code_simp
  have n: "ai_getValidMovesForBoard passBoard WHITE \<noteq> []"
    by (simp add: passBoard_white_moves)
  have m: "minimax passBoard 2 False NegInf PosInf WHITE = Fin (evaluateBoard passBoard WHITE)"
    using minimax_min_node_without_moves [where player = WHITE and b = passBoard and d = "Suc 0"]
    by (simp add: passBoard_black_moves numeral_2_eq_2)
  have m': "minimax passBoard 2 False NegInf PosInf WHITE = Fin 225"
    by (simp only: m passBoard_eval)
  show ?thesis
    by (intro conjI w n m m' passBoard_black_moves passBoard_pass_value)
qed

section \<open>Writing to the board\<close>

lemma wf_board_setCell:
  assumes "wf_board b"
  shows "wf_board (setCell b r c v)"
proof -
  have "length (b[nat r := (b ! nat r)[nat c := v]] ! n) = 8" if "n < 8" for n
  proof (cases "n = nat r")
    case True
    then show ?thesis
      using assms that by (simp add: wf_board_def list_all_length)
  next
    case False
    then show ?thesis
      using assms that by (simp add: wf_board_def list_all_length)
  qed
  then show ?thesis
    using assms by (simp add: wf_board_def setCell_def list_all_length)
qed

lemma cellAt_setCell:
  assumes "wf_board b" and "isValidPosition r c" and "isValidPosition r' c'"
  shows "cellAt (setCell b r c v) r' c' = (if r' = r \<and> c' = c then v else cellAt b r' c')"
proof -
  have len: "nat r < length b" "nat r' < length b"
    using assms by (auto simp: wf_board_def isValidPosition_def BOARD_SIZE_def)
  have "length (b ! nat r) = 8"
    using assms(1) len(1) by (auto simp: wf_board_def list_all_length)
  then have lc: "nat c < length (b ! nat r)"
    using assms(2) by (auto simp: isValidPosition_def BOARD_SIZE_def)
  have inj: "nat r' = nat r \<longleftrightarrow> r' = r" "nat c' = nat c \<longleftrightarrow> c' = c"
    using assms(2,3) by (auto simp: isValidPosition_def)
  show ?thesis
    using len lc inj by (auto simp: cellAt_def setCell_def nth_list_update)
qed

lemma foldl_setCell:
  assumes "wf_board b" and "\<forall>p \<in> set ps. isValidPosition (fst p) (snd p)"
  shows "wf_board (foldl (\<lambda>b (r, c). setCell b r c v) b ps)
         \<and> (\<forall>r' c'. isValidPosition r' c' \<longrightarrow>
              cellAt (foldl (\<lambda>b (r, c). setCell b r c v) b ps) r' c'
                = (if (r', c') \<in> set ps then v else cellAt b r' c'))"
  using assms
proof (induction ps arbitrary: b)
  case Nil
  then show ?case by simp
next
  case (Cons p ps)
  obtain r c where p: "p = (r, c)" by (cases p)
  have v: "isValidPosition r c" using Cons.prems(2) by (simp add: p)
  have w: "wf_board (setCell b r c v)" using Cons.prems(1) by (rule wf_board_setCell)
  have IH: "wf_board (foldl (\<lambda>b (r, c). setCell b r c v) (setCell b r c v) ps)
         \<and> (\<forall>r' c'. isValidPosition r' c' \<longrightarrow>
              cellAt (foldl (\<lambda>b (r, c). setCell b r c v) (setCell b r c v) ps) r' c'
                = (if (r', c') \<in> set ps then v else cellAt (setCell b r c v) r' c'))"
    using Cons.prems(2) by (intro Cons.IH w) simp
  show ?case
    using IH by (auto simp: p cellAt_setCell [OF Cons.prems(1) v])
qed


section \<open>The flip computation on an occupied cell\<close>

lemma ai_scan_end:
  assumes "ai_scan b opponent dr dc r c temp = (temp', r', c')"
  shows "\<exists>n\<ge>0. r' = r + n * dr \<and> c' = c + n * dc"
  using assms
proof (induction b opponent dr dc r c temp rule: ai_scan.induct)
  case (1 b opponent dr dc r c temp)
  show ?case
  proof (cases "isValidPosition r c \<and> cellAt b r c = opponent \<and> (dr, dc) \<noteq> (0, 0)")
    case False
    then have "r' = r + 0 * dr \<and> c' = c + 0 * dc"
      using "1.prems" by (subst (asm) ai_scan.simps) auto
    then show ?thesis by (intro exI [of _ 0]) simp
  next
    case True
    then have "ai_scan b opponent dr dc (r + dr) (c + dc) (temp @ [(r, c)]) = (temp', r', c')"
      using "1.prems" by (subst (asm) ai_scan.simps) simp
    from "1.IH" [OF True this]
    obtain n where "n \<ge> 0" "r' = r + dr + n * dr" "c' = c + dc + n * dc" by blast
    then have "n + 1 \<ge> 0 \<and> r' = r + (n + 1) * dr \<and> c' = c + (n + 1) * dc"
      by (simp add: algebra_simps)
    then show ?thesis by blast
  qed
qed

lemma off_origin:
  fixes k :: int
  assumes "k \<ge> 1" and "(dr, dc) \<noteq> (0, 0)"
  shows "(row + k * dr, col + k * dc) \<noteq> (row, col)"
  using assms by auto

lemma ai_scan_setCell:
  assumes "wf_board b" and "isValidPosition row col"
    and "k \<ge> 1" and "r = row + k * dr" and "c = col + k * dc"
  shows "ai_scan (setCell b row col x) opponent dr dc r c temp = ai_scan b opponent dr dc r c temp"
  using assms
proof (induction b opponent dr dc r c temp arbitrary: k rule: ai_scan.induct)
  case (1 b opponent dr dc r c temp)
  have same: "cellAt (setCell b row col x) r c = cellAt b r c"
    if "isValidPosition r c" "(dr, dc) \<noteq> (0, 0)"
  proof -
    have "(r, c) \<noteq> (row, col)"
      using off_origin [OF "1.prems"(3) that(2)] "1.prems"(4,5) by simp
    then show ?thesis
      using cellAt_setCell [OF "1.prems"(1,2) that(1), of x] by auto
  qed
  show ?case
  proof (cases "isValidPosition r c \<and> cellAt b r c = opponent \<and> (dr, dc) \<noteq> (0, 0)")
    case True
    then have g': "isValidPosition r c \<and> cellAt (setCell b row col x) r c = opponent \<and> (dr, dc) \<noteq> (0, 0)"
      using same by simp
    have "ai_scan (setCell b row col x) opponent dr dc (r + dr) (c + dc) (temp @ [(r, c)])
          = ai_scan b opponent dr dc (r + dr) (c + dc) (temp @ [(r, c)])"
      using "1.prems" by (intro "1.IH" [OF True, of "k + 1"]) (simp_all add: algebra_simps)
    then show ?thesis
      using True g'
      by (subst ai_scan.simps, subst (2) ai_scan.simps) simp
  next
    case False
    have g': "\<not> (isValidPosition r c \<and> cellAt (setCell b row col x) r c = opponent \<and> (dr, dc) \<noteq> (0, 0))"
    proof
      assume a: "isValidPosition r c \<and> cellAt (setCell b row col x) r c = opponent \<and> (dr, dc) \<noteq> (0, 0)"
      then have "cellAt (setCell b row col x) r c = cellAt b r c"
        by (intro same) simp_all
      with a False show False by simp
    qed
    show ?thesis
      using False g'
      by (subst ai_scan.simps, subst (2) ai_scan.simps) auto
  qed
qed

lemma ai_getFlips_ignores_target:
  assumes wf: "wf_board b" and v: "isValidPosition row col"
  shows "ai_getFlips (setCell b row col x) row col player = ai_getFlips b row col player"
proof -
  let ?b' = "setCell b row col x"
  let ?opp = "if player = WHITE then BLACK else WHITE"
  have step: "(case ai_scan ?b' ?opp dr dc (row + dr) (col + dc) [] of
                 (temp, r, c) \<Rightarrow>
                   if isValidPosition r c \<and> cellAt ?b' r c = player \<and> length temp > 0
                   then flips @ temp else flips)
              = (case ai_scan b ?opp dr dc (row + dr) (col + dc) [] of
                 (temp, r, c) \<Rightarrow>
                   if isValidPosition r c \<and> cellAt b r c = player \<and> length temp > 0
                   then flips @ temp else flips)"
    if d: "(dr, dc) \<in> set directions" for flips dr dc
  proof -
    have nz: "(dr, dc) \<noteq> (0, 0)" using d by (auto simp: directions_def)
    have sc: "ai_scan ?b' ?opp dr dc (row + dr) (col + dc) []
              = ai_scan b ?opp dr dc (row + dr) (col + dc) []"
      by (rule ai_scan_setCell [OF wf v, of 1]) simp_all
    obtain temp r c where res: "ai_scan b ?opp dr dc (row + dr) (col + dc) [] = (temp, r, c)"
      by (metis prod_cases3)
    from ai_scan_end [OF res] obtain n where n: "n \<ge> 0" "r = row + dr + n * dr" "c = col + dc + n * dc"
      by blast
    have "(row + (n + 1) * dr, col + (n + 1) * dc) \<noteq> (row, col)"
      by (rule off_origin [OF _ nz]) (use n(1) in simp)
    then have ne: "(r, c) \<noteq> (row, col)"
      using n(2,3) by (simp add: algebra_simps)
    have "cellAt ?b' r c = cellAt b r c" if "isValidPosition r c"
      using cellAt_setCell [OF wf v that, of x] ne by auto
    then show ?thesis
      by (auto simp: sc res)
  qed
  have loop: "foldl (\<lambda>flips (dr, dc).
               case ai_scan ?b' ?opp dr dc (row + dr) (col + dc) [] of
                 (temp, r, c) \<Rightarrow>
                   if isValidPosition r c \<and> cellAt ?b' r c = player \<and> length temp > 0
                   then flips @ temp else flips) acc ds
            = foldl (\<lambda>flips (dr, dc).
               case ai_scan b ?opp dr dc (row + dr) (col + dc) [] of
                 (temp, r, c) \<Rightarrow>
                   if isValidPosition r c \<and> cellAt b r c = player \<and> length temp > 0
                   then flips @ temp else flips) acc ds"
    if "set ds \<subseteq> set directions" for acc ds
    using that
  proof (induction ds arbitrary: acc)
    case Nil
    show ?case by (simp only: foldl_Nil)
  next
    case (Cons d ds)
    obtain dr dc where dd: "d = (dr, dc)" by (cases d)
    have d: "(dr, dc) \<in> set directions" using Cons.prems by (simp add: dd)
    have ds: "set ds \<subseteq> set directions" using Cons.prems by simp
    show ?case
      by (simp only: foldl_Cons dd prod.case step [OF d] Cons.IH [OF ds])
  qed
  show ?thesis
    by (simp only: ai_getFlips_def Let_def loop [OF subset_refl])
qed

text \<open>
  C4, as the code has it. On an occupied cell the game's \<open>getFlips\<close> returns the empty
  list. The AI's \<open>getFlips\<close> does not look at the target cell: on an occupied cell it
  returns what it returns on the same board with that cell empty.
\<close>

theorem getFlips_occupied:
  assumes "wf_board (board g)" and "isValidPosition row col"
    and "cellAt (board g) row col \<noteq> EMPTY"
  shows "game_getFlips g row col player = []
    \<and> ai_getFlips (board g) row col player
        = ai_getFlips (setCell (board g) row col EMPTY) row col player"
  using assms(3) ai_getFlips_ignores_target [OF assms(1,2), of EMPTY player]
  by (simp add: game_getFlips_def)

theorem getFlips_occupied_witness:
  "wf_board (board initialGame) \<and> isValidPosition 3 3 \<and> cellAt (board initialGame) 3 3 \<noteq> EMPTY
   \<and> game_getFlips initialGame 3 3 BLACK = []
   \<and> ai_getFlips (board initialGame) 3 3 BLACK
       = ai_getFlips (setCell (board initialGame) 3 3 EMPTY) 3 3 BLACK"
proof -
  have v: "isValidPosition 3 3" by code_simp
  have o: "cellAt (board initialGame) 3 3 \<noteq> EMPTY" by code_simp
  show ?thesis
    using wf_initialGame v o getFlips_occupied [of initialGame 3 3 BLACK] by simp
qed

text \<open>
  The AI's \<open>getFlips\<close> on an occupied cell: after Black's disc is put on (2,3) of the
  opening board, as \<open>makeTestMove\<close> does before it calls \<open>getFlips\<close>, the result is the
  disc on (3,3).
\<close>

theorem ai_getFlips_occupied_counterexample:
  "wf_board (setCell newBoard 2 3 BLACK) \<and> isValidPosition 2 3
   \<and> cellAt (setCell newBoard 2 3 BLACK) 2 3 \<noteq> EMPTY
   \<and> ai_getFlips (setCell newBoard 2 3 BLACK) 2 3 BLACK = [(3, 3)]
   \<and> ai_getFlips (setCell newBoard 2 3 BLACK) 2 3 BLACK \<noteq> []"
  by code_simp

section \<open>The discs a move turns\<close>

lemma game_scan_run:
  assumes "game_scan b opponent dr dc r c temp = (temp', r', c')"
  shows "\<exists>xs. temp' = temp @ xs \<and> distinct xs
           \<and> (\<forall>p \<in> set xs. isValidPosition (fst p) (snd p) \<and> cellAt b (fst p) (snd p) = opponent
                 \<and> (\<exists>k\<ge>0. p = (r + k * dr, c + k * dc)))"
  using assms
proof (induction b opponent dr dc r c temp rule: game_scan.induct)
  case (1 b opponent dr dc r c temp)
  show ?case
  proof (cases "isValidPosition r c \<and> cellAt b r c = opponent \<and> (dr, dc) \<noteq> (0, 0)")
    case False
    then have "temp' = temp"
      using "1.prems" by (subst (asm) game_scan.simps) auto
    then show ?thesis by simp
  next
    case True
    then have "game_scan b opponent dr dc (r + dr) (c + dc) (temp @ [(r, c)]) = (temp', r', c')"
      using "1.prems" by (subst (asm) game_scan.simps) simp
    from "1.IH" [OF True this]
    obtain xs where xs: "temp' = (temp @ [(r, c)]) @ xs" "distinct xs"
      "\<forall>p \<in> set xs. isValidPosition (fst p) (snd p) \<and> cellAt b (fst p) (snd p) = opponent
          \<and> (\<exists>k\<ge>0. p = (r + dr + k * dr, c + dc + k * dc))"
      by blast
    have shift: "\<exists>k\<ge>1. p = (r + k * dr, c + k * dc)" if "p \<in> set xs" for p
    proof -
      from xs(3) that obtain k where "k \<ge> 0" "p = (r + dr + k * dr, c + dc + k * dc)"
        by blast
      then have "k + 1 \<ge> 1 \<and> p = (r + (k + 1) * dr, c + (k + 1) * dc)"
        by (simp add: algebra_simps)
      then show ?thesis by blast
    qed
    have notin: "(r, c) \<notin> set xs"
    proof
      assume "(r, c) \<in> set xs"
      from shift [OF this] obtain k where "k \<ge> 1" "(r, c) = (r + k * dr, c + k * dc)"
        by blast
      then have "k * dr = 0" "k * dc = 0" "k \<noteq> 0" by auto
      then have "dr = 0 \<and> dc = 0" by simp
      with True show False by simp
    qed
    have here: "\<exists>k\<ge>0. p = (r + k * dr, c + k * dc)" if "p \<in> set ((r, c) # xs)" for p
    proof (cases "p = (r, c)")
      case True
      then have "(0::int) \<ge> 0 \<and> p = (r + 0 * dr, c + 0 * dc)" by simp
      then show ?thesis by blast
    next
      case False
      with that have "p \<in> set xs" by simp
      from shift [OF this] obtain k where "k \<ge> 1" "p = (r + k * dr, c + k * dc)" by blast
      then have "k \<ge> 0 \<and> p = (r + k * dr, c + k * dc)" by simp
      then show ?thesis by blast
    qed
    have "temp' = temp @ ((r, c) # xs)" using xs(1) by simp
    moreover have "distinct ((r, c) # xs)" using xs(2) notin by simp
    moreover have "\<forall>p \<in> set ((r, c) # xs). isValidPosition (fst p) (snd p)
          \<and> cellAt b (fst p) (snd p) = opponent \<and> (\<exists>k\<ge>0. p = (r + k * dr, c + k * dc))"
      using True xs(3) here by auto
    ultimately show ?thesis by blast
  qed
qed

lemma lineFlips_props:
  assumes "d \<in> set directions" and "p \<in> set (lineFlips b player opponent row col d)"
  shows "isValidPosition (fst p) (snd p)" and "cellAt b (fst p) (snd p) = opponent"
    and "(sgn (fst p - row), sgn (snd p - col)) = d"
proof -
  obtain dr dc where d: "d = (dr, dc)" by (cases d)
  obtain temp r c where sc: "game_scan b opponent dr dc (row + dr) (col + dc) [] = (temp, r, c)"
    by (metis prod_cases3)
  from game_scan_run [OF sc]
  have run: "\<forall>q \<in> set temp. isValidPosition (fst q) (snd q) \<and> cellAt b (fst q) (snd q) = opponent
          \<and> (\<exists>k\<ge>0. q = (row + dr + k * dr, col + dc + k * dc))"
    by auto
  have "p \<in> set temp"
    using assms(2) by (simp add: lineFlips_def d sc split: if_splits)
  with run obtain k where k: "isValidPosition (fst p) (snd p)" "cellAt b (fst p) (snd p) = opponent"
      "k \<ge> 0" "p = (row + dr + k * dr, col + dc + k * dc)"
    by blast
  show "isValidPosition (fst p) (snd p)" and "cellAt b (fst p) (snd p) = opponent"
    by (rule k(1), rule k(2))
  have unit: "dr \<in> {-1, 0, 1}" "dc \<in> {-1, 0, 1}"
    using assms(1) by (auto simp: directions_def d)
  have "fst p - row = (k + 1) * dr" "snd p - col = (k + 1) * dc"
    using k(4) by (simp_all add: algebra_simps)
  moreover have "sgn ((k + 1) * dr) = dr" "sgn ((k + 1) * dc) = dc"
    using unit k(3) by (auto simp: sgn_mult)
  ultimately show "(sgn (fst p - row), sgn (snd p - col)) = d"
    by (simp add: d)
qed

lemma lineFlips_distinct: "distinct (lineFlips b player opponent row col d)"
proof -
  obtain dr dc where d: "d = (dr, dc)" by (cases d)
  obtain temp r c where sc: "game_scan b opponent dr dc (row + dr) (col + dc) [] = (temp, r, c)"
    by (metis prod_cases3)
  from game_scan_run [OF sc] have "distinct temp" by auto
  then show ?thesis by (simp add: lineFlips_def d sc)
qed

lemma foldl_lineFlips:
  "foldl (\<lambda>flips (dr, dc).
            case game_scan b opponent dr dc (row + dr) (col + dc) [] of
              (temp, r, c) \<Rightarrow>
                if isValidPosition r c \<and> cellAt b r c = player \<and> length temp > 0
                then flips @ temp else flips)
         acc ds
   = acc @ concat (map (lineFlips b player opponent row col) ds)"
proof (induction ds arbitrary: acc)
  case Nil
  then show ?case by simp
next
  case (Cons d ds)
  obtain dr dc where d: "d = (dr, dc)" by (cases d)
  obtain temp r c where sc: "game_scan b opponent dr dc (row + dr) (col + dc) [] = (temp, r, c)"
    by (metis prod_cases3)
  have step: "(case game_scan b opponent dr dc (row + dr) (col + dc) [] of
                (temp, r, c) \<Rightarrow>
                  if isValidPosition r c \<and> cellAt b r c = player \<and> length temp > 0
                  then acc @ temp else acc)
              = acc @ lineFlips b player opponent row col (dr, dc)"
    by (simp add: lineFlips_def sc)
  show ?case
    by (simp only: foldl_Cons d prod.case step Cons.IH list.map concat.simps append_assoc)
qed

lemma game_getFlips_lines:
  assumes "cellAt (board g) row col = EMPTY"
  shows "game_getFlips g row col player
         = concat (map (lineFlips (board g) player (if player = BLACK then WHITE else BLACK) row col)
                       directions)"
  by (simp only: game_getFlips_def Let_def assms simp_thms if_False foldl_lineFlips append_Nil)

lemma distinct_concat_tagged:
  assumes "distinct ds" and "\<And>d. d \<in> set ds \<Longrightarrow> distinct (f d)"
    and "\<And>d p. d \<in> set ds \<Longrightarrow> p \<in> set (f d) \<Longrightarrow> tag p = d"
  shows "distinct (concat (map f ds))"
  using assms
proof (induction ds)
  case Nil
  then show ?case by simp
next
  case (Cons d ds)
  have "set (f d) \<inter> set (concat (map f ds)) = {}"
  proof (rule ccontr)
    assume "set (f d) \<inter> set (concat (map f ds)) \<noteq> {}"
    then obtain p e where "p \<in> set (f d)" "e \<in> set ds" "p \<in> set (f e)" by auto
    then have "tag p = d" "tag p = e" using Cons.prems(3) by auto
    with \<open>e \<in> set ds\<close> Cons.prems(1) show False by auto
  qed
  moreover have "distinct (concat (map f ds))"
    using Cons.prems by (intro Cons.IH) auto
  ultimately show ?case
    using Cons.prems(2) by simp
qed

lemma game_getFlips_props:
  assumes "cellAt (board g) row col = EMPTY"
  shows "distinct (game_getFlips g row col player)"
    and "\<forall>p \<in> set (game_getFlips g row col player).
           isValidPosition (fst p) (snd p)
           \<and> cellAt (board g) (fst p) (snd p) = (if player = BLACK then WHITE else BLACK)"
proof -
  let ?opp = "if player = BLACK then WHITE else BLACK"
  let ?f = "lineFlips (board g) player ?opp row col"
  have dd: "distinct directions" by (simp add: directions_def)
  show "distinct (game_getFlips g row col player)"
    unfolding game_getFlips_lines [OF assms]
    by (rule distinct_concat_tagged [where tag = "\<lambda>p. (sgn (fst p - row), sgn (snd p - col))", OF dd])
       (auto simp: lineFlips_distinct dest: lineFlips_props(3))
  show "\<forall>p \<in> set (game_getFlips g row col player).
           isValidPosition (fst p) (snd p) \<and> cellAt (board g) (fst p) (snd p) = ?opp"
    unfolding game_getFlips_lines [OF assms]
    using lineFlips_props(1,2) by fastforce
qed


section \<open>Counting discs\<close>

lemma distinct_allPositions: "distinct allPositions"
  by code_simp

lemma countStones_foldl:
  "foldl (\<lambda>(black, white) (row, col).
              if cellAt b row col = BLACK then (black + 1, white)
              else if cellAt b row col = WHITE then (black, white + 1)
              else (black, white))
         (x, y) ps
   = (x + length (filter (\<lambda>(row, col). cellAt b row col = BLACK) ps),
      y + length (filter (\<lambda>(row, col). cellAt b row col = WHITE) ps))"
proof (induction ps arbitrary: x y)
  case Nil
  then show ?case by simp
next
  case (Cons p ps)
  obtain row col where p: "p = (row, col)" by (cases p)
  show ?case
    by (cases "cellAt b row col") (simp_all add: p Cons.IH)
qed

lemma countStones_filter:
  "countStones g =
     (length (filter (\<lambda>(row, col). cellAt (board g) row col = BLACK) allPositions),
      length (filter (\<lambda>(row, col). cellAt (board g) row col = WHITE) allPositions))"
  unfolding countStones_def by (simp only: countStones_foldl add_0)

lemma stonesOf_card:
  assumes "k = BLACK \<or> k = WHITE"
  shows "stonesOf k (countStones g)
         = card {p \<in> set allPositions. cellAt (board g) (fst p) (snd p) = k}"
proof -
  have "length (filter (\<lambda>(row, col). cellAt (board g) row col = k) allPositions)
        = card {p \<in> set allPositions. cellAt (board g) (fst p) (snd p) = k}"
    by (simp add: distinct_length_filter [OF distinct_allPositions] case_prod_beta Int_def conj_commute)
  then show ?thesis
    using assms by (auto simp: stonesOf_def countStones_filter)
qed

lemma makeMove_legal:
  assumes wf: "wf_board (board g)" and v: "isValidPosition row col"
    and e: "cellAt (board g) row col = EMPTY"
    and f: "game_getFlips g row col player \<noteq> []"
  shows "fst (makeMove g row col player) = True"
    and "wf_board (board (snd (makeMove g row col player)))"
    and "\<forall>r c. isValidPosition r c \<longrightarrow>
           cellAt (board (snd (makeMove g row col player))) r c
             = (if (r, c) = (row, col) \<or> (r, c) \<in> set (game_getFlips g row col player)
                then player else cellAt (board g) r c)"
    and "snd (makeMove g row col player)
           = g\<lparr>board := board (snd (makeMove g row col player))\<rparr>"
proof -
  let ?flips = "game_getFlips g row col player"
  let ?b1 = "setCell (board g) row col player"
  let ?b2 = "foldl (\<lambda>b (r, c). setCell b r c player) ?b1 ?flips"
  have mm: "makeMove g row col player = (True, g\<lparr>board := ?b2\<rparr>)"
    using e f by (simp add: makeMove_def Let_def)
  have w1: "wf_board ?b1" using wf by (rule wf_board_setCell)
  have vf: "\<forall>p \<in> set ?flips. isValidPosition (fst p) (snd p)"
    using game_getFlips_props(2) [OF e] by blast
  note fs = foldl_setCell [OF w1 vf, of player]
  show "fst (makeMove g row col player) = True" by (simp add: mm)
  show "wf_board (board (snd (makeMove g row col player)))"
    using fs by (simp add: mm)
  show "\<forall>r c. isValidPosition r c \<longrightarrow>
           cellAt (board (snd (makeMove g row col player))) r c
             = (if (r, c) = (row, col) \<or> (r, c) \<in> set ?flips
                then player else cellAt (board g) r c)"
    using fs by (auto simp: mm cellAt_setCell [OF wf v])
  show "snd (makeMove g row col player)
           = g\<lparr>board := board (snd (makeMove g row col player))\<rparr>"
    by (simp add: mm)
qed

lemma makeMove_counts:
  assumes wf: "wf_board (board g)" and v: "isValidPosition row col"
    and e: "cellAt (board g) row col = EMPTY"
    and f: "game_getFlips g row col player \<noteq> []"
    and pl: "player = BLACK \<or> player = WHITE"
  defines "opp \<equiv> (if player = BLACK then WHITE else BLACK)"
  defines "g' \<equiv> snd (makeMove g row col player)"
  shows "stonesOf player (countStones g')
           = stonesOf player (countStones g) + 1 + length (game_getFlips g row col player)"
    and "stonesOf opp (countStones g') + length (game_getFlips g row col player)
           = stonesOf opp (countStones g)"
proof -
  let ?flips = "game_getFlips g row col player"
  let ?A = "set allPositions"
  let ?own = "{p \<in> ?A. cellAt (board g) (fst p) (snd p) = player}"
  let ?other = "{p \<in> ?A. cellAt (board g) (fst p) (snd p) = opp}"
  have oppc: "opp = BLACK \<or> opp = WHITE" "opp \<noteq> player" "opp \<noteq> EMPTY" "player \<noteq> EMPTY"
    using pl by (auto simp: opp_def)
  have fl: "\<forall>p \<in> set ?flips. isValidPosition (fst p) (snd p)
              \<and> cellAt (board g) (fst p) (snd p) = opp"
    using game_getFlips_props(2) [OF e, of player] by (simp add: opp_def)
  have dist: "distinct ?flips" by (rule game_getFlips_props(1) [OF e])
  have after: "cellAt (board g') (fst p) (snd p)
                 = (if p = (row, col) \<or> p \<in> set ?flips then player
                    else cellAt (board g) (fst p) (snd p))"
    if "p \<in> ?A" for p
  proof -
    obtain r c where p: "p = (r, c)" by (cases p)
    have "isValidPosition r c"
      using that allPositions_valid [of r c] by (simp add: p)
    then show ?thesis
      using makeMove_legal(3) [OF wf v e f] by (simp add: g'_def p)
  qed
  have sub: "set ?flips \<subseteq> ?other"
  proof
    fix p assume p: "p \<in> set ?flips"
    obtain r c where rc: "p = (r, c)" by (cases p)
    have "isValidPosition r c" "cellAt (board g) r c = opp"
      using fl p by (auto simp: rc)
    then show "p \<in> ?other"
      by (simp add: rc allPositions_valid)
  qed
  have origin: "(row, col) \<in> ?A" "(row, col) \<notin> set ?flips" "(row, col) \<notin> ?own"
  proof -
    show "(row, col) \<in> ?A" using v by (simp add: allPositions_valid)
    show "(row, col) \<notin> set ?flips"
    proof
      assume "(row, col) \<in> set ?flips"
      with fl have "cellAt (board g) row col = opp" by fastforce
      with e oppc(3) show False by simp
    qed
    show "(row, col) \<notin> ?own" using e oppc(4) by simp
  qed
  have own': "{p \<in> ?A. cellAt (board g') (fst p) (snd p) = player}
               = ?own \<union> insert (row, col) (set ?flips)"
  proof (rule set_eqI)
    fix p
    show "p \<in> {p \<in> ?A. cellAt (board g') (fst p) (snd p) = player}
          \<longleftrightarrow> p \<in> ?own \<union> insert (row, col) (set ?flips)"
    proof (cases "p \<in> ?A")
      case True
      show ?thesis
        using True by (simp add: after [OF True])
    next
      case False
      then have "p \<noteq> (row, col)" "p \<notin> set ?flips"
        using origin(1) sub by auto
      with False show ?thesis by simp
    qed
  qed
  have other': "{p \<in> ?A. cellAt (board g') (fst p) (snd p) = opp} = ?other - set ?flips"
  proof (rule set_eqI)
    fix p
    show "p \<in> {p \<in> ?A. cellAt (board g') (fst p) (snd p) = opp} \<longleftrightarrow> p \<in> ?other - set ?flips"
    proof (cases "p \<in> ?A")
      case True
      have "p = (row, col) \<Longrightarrow> cellAt (board g) (fst p) (snd p) \<noteq> opp"
        using e oppc(3) by auto
      then show ?thesis
        using True oppc(2) by (auto simp: after [OF True])
    next
      case False
      then show ?thesis by simp
    qed
  qed
  have fin: "finite ?own" "finite ?other" by simp_all
  have disj: "?own \<inter> insert (row, col) (set ?flips) = {}"
    using sub origin(3) oppc(2) by auto
  have "card (?own \<union> insert (row, col) (set ?flips))
          = card ?own + card (insert (row, col) (set ?flips))"
    by (rule card_Un_disjoint [OF fin(1) _ disj]) simp
  also have "card (insert (row, col) (set ?flips)) = 1 + length ?flips"
    using origin(2) dist by (simp add: distinct_card)
  finally show "stonesOf player (countStones g')
           = stonesOf player (countStones g) + 1 + length ?flips"
    by (simp add: stonesOf_card [OF pl] own')
  have "card (?other - set ?flips) + card (set ?flips) = card ?other"
    using sub fin(2) by (simp add: card_Diff_subset card_mono)
  then show "stonesOf opp (countStones g') + length ?flips = stonesOf opp (countStones g)"
    using dist by (simp add: stonesOf_card [OF oppc(1)] other' distinct_card)
qed


section \<open>The effect of a legal move\<close>

lemma legal_move_props:
  assumes "m \<in> set (game_getValidMoves g player)"
  shows "isValidPosition (move_row m) (move_col m)"
    and "cellAt (board g) (move_row m) (move_col m) = EMPTY"
    and "game_getFlips g (move_row m) (move_col m) player \<noteq> []"
    and "move_flips m = length (game_getFlips g (move_row m) (move_col m) player)"
  using move_in_concat [OF assms [unfolded game_getValidMoves_def]]
  by (simp_all add: allPositions_valid)

text \<open>
  C2, as the code has it. For every board, side and legal move, \<open>makeMove\<close> succeeds and
  the total number of discs on the board grows by exactly one, the disc placed: the
  mover's count grows by \<open>1 + flips\<close> of the move and the opponent's count falls by
  \<open>flips\<close>. In particular the total never decreases.
\<close>

theorem makeMove_disc_counts:
  assumes "wf_board (board g)" and "player = BLACK \<or> player = WHITE"
    and "m \<in> set (game_getValidMoves g player)"
  shows "fst (makeMove g (move_row m) (move_col m) player) = True
    \<and> fst (countStones (snd (makeMove g (move_row m) (move_col m) player)))
        + snd (countStones (snd (makeMove g (move_row m) (move_col m) player)))
      = fst (countStones g) + snd (countStones g) + 1
    \<and> stonesOf player (countStones (snd (makeMove g (move_row m) (move_col m) player)))
      = stonesOf player (countStones g) + 1 + move_flips m
    \<and> stonesOf (if player = BLACK then WHITE else BLACK)
         (countStones (snd (makeMove g (move_row m) (move_col m) player))) + move_flips m
      = stonesOf (if player = BLACK then WHITE else BLACK) (countStones g)"
proof -
  let ?g' = "snd (makeMove g (move_row m) (move_col m) player)"
  let ?opp = "if player = BLACK then WHITE else BLACK"
  note lm = legal_move_props [OF assms(3)]
  have t: "fst (makeMove g (move_row m) (move_col m) player) = True"
    by (rule makeMove_legal(1) [OF assms(1) lm(1) lm(2) lm(3)])
  have own: "stonesOf player (countStones ?g') = stonesOf player (countStones g) + 1 + move_flips m"
    using makeMove_counts(1) [OF assms(1) lm(1) lm(2) lm(3) assms(2)] by (simp only: lm(4))
  have other: "stonesOf ?opp (countStones ?g') + move_flips m = stonesOf ?opp (countStones g)"
    using makeMove_counts(2) [OF assms(1) lm(1) lm(2) lm(3) assms(2)] by (simp only: lm(4))
  have tot: "fst s + snd s = stonesOf player s + stonesOf ?opp s" for s :: "nat \<times> nat"
    using assms(2) by (cases s) (auto simp: stonesOf_def)
  have "fst (countStones ?g') + snd (countStones ?g') = fst (countStones g) + snd (countStones g) + 1"
    using own other by (simp only: tot)
  then show ?thesis
    using t own other by blast
qed

theorem makeMove_disc_counts_witness:
  "wf_board (board initialGame)
   \<and> \<lparr>move_row = 2, move_col = 3, move_flips = 1\<rparr> \<in> set (game_getValidMoves initialGame BLACK)
   \<and> fst (makeMove initialGame 2 3 BLACK) = True
   \<and> fst (countStones (snd (makeMove initialGame 2 3 BLACK)))
        + snd (countStones (snd (makeMove initialGame 2 3 BLACK)))
      = fst (countStones initialGame) + snd (countStones initialGame) + 1
   \<and> stonesOf BLACK (countStones (snd (makeMove initialGame 2 3 BLACK)))
      = stonesOf BLACK (countStones initialGame) + 1 + 1
   \<and> stonesOf WHITE (countStones (snd (makeMove initialGame 2 3 BLACK))) + 1
      = stonesOf WHITE (countStones initialGame)"
proof -
  have m: "\<lparr>move_row = 2, move_col = 3, move_flips = 1\<rparr> \<in> set (game_getValidMoves initialGame BLACK)"
    by code_simp
  show ?thesis
    using wf_initialGame m
      makeMove_disc_counts [of initialGame BLACK "\<lparr>move_row = 2, move_col = 3, move_flips = 1\<rparr>"]
    by simp
qed

text \<open>
  The first move of a game, Black on (2,3): four discs before, five after, not
  \<open>4 + (1 + 1)\<close>.
\<close>

theorem disc_growth_counterexample:
  "wf_board (board initialGame)
   \<and> \<lparr>move_row = 2, move_col = 3, move_flips = 1\<rparr> \<in> set (game_getValidMoves initialGame BLACK)
   \<and> fst (makeMove initialGame 2 3 BLACK) = True
   \<and> fst (countStones initialGame) + snd (countStones initialGame) = 4
   \<and> fst (countStones (snd (makeMove initialGame 2 3 BLACK)))
        + snd (countStones (snd (makeMove initialGame 2 3 BLACK))) = 5
   \<and> fst (countStones (snd (makeMove initialGame 2 3 BLACK)))
        + snd (countStones (snd (makeMove initialGame 2 3 BLACK)))
      \<noteq> fst (countStones initialGame) + snd (countStones initialGame)
          + (1 + move_flips \<lparr>move_row = 2, move_col = 3, move_flips = 1\<rparr>)"
  by code_simp

text \<open>
  C3, as the code has it. For every board, side and legal move, \<open>makeMove\<close> returns
  \<open>true\<close> and writes the move into the game's own board: afterwards the target cell and
  the cells of the flip list hold the mover's colour, every other cell holds what it
  held before, no other field of the game changes, and the board differs from the board
  before the call, which only a copy taken beforehand (\<open>copyBoard\<close>) still holds.
\<close>

theorem makeMove_writes_board:
  assumes "wf_board (board g)" and "player = BLACK \<or> player = WHITE"
    and "m \<in> set (game_getValidMoves g player)"
  shows "fst (makeMove g (move_row m) (move_col m) player) = True
    \<and> snd (makeMove g (move_row m) (move_col m) player)
        = g\<lparr>board := board (snd (makeMove g (move_row m) (move_col m) player))\<rparr>
    \<and> wf_board (board (snd (makeMove g (move_row m) (move_col m) player)))
    \<and> (\<forall>r c. isValidPosition r c \<longrightarrow>
          cellAt (board (snd (makeMove g (move_row m) (move_col m) player))) r c
            = (if (r, c) = (move_row m, move_col m)
                  \<or> (r, c) \<in> set (game_getFlips g (move_row m) (move_col m) player)
               then player else cellAt (board g) r c))
    \<and> board (snd (makeMove g (move_row m) (move_col m) player)) \<noteq> board g
    \<and> copyBoard g = board g"
proof -
  let ?g' = "snd (makeMove g (move_row m) (move_col m) player)"
  note lm = legal_move_props [OF assms(3)]
  note mk = makeMove_legal [OF assms(1) lm(1) lm(2) lm(3)]
  have "cellAt (board ?g') (move_row m) (move_col m) = player"
    using mk(3) lm(1) by simp
  then have "cellAt (board ?g') (move_row m) (move_col m) \<noteq> cellAt (board g) (move_row m) (move_col m)"
    using lm(2) assms(2) by auto
  then have ne: "board ?g' \<noteq> board g" by auto
  have cp: "copyBoard g = board g" by (simp add: copyBoard_def)
  show ?thesis
    using mk(1) mk(4) mk(2) mk(3) ne cp by blast
qed

theorem makeMove_writes_board_witness:
  "wf_board (board initialGame)
   \<and> \<lparr>move_row = 2, move_col = 3, move_flips = 1\<rparr> \<in> set (game_getValidMoves initialGame BLACK)
   \<and> fst (makeMove initialGame 2 3 BLACK) = True
   \<and> isValidPosition 3 3 \<and> isValidPosition 4 4
   \<and> game_getFlips initialGame 2 3 BLACK = [(3, 3)]
   \<and> cellAt (board (snd (makeMove initialGame 2 3 BLACK))) 3 3 = BLACK
   \<and> cellAt (board (snd (makeMove initialGame 2 3 BLACK))) 4 4 = cellAt (board initialGame) 4 4
   \<and> board (snd (makeMove initialGame 2 3 BLACK)) \<noteq> board initialGame"
proof -
  have m: "\<lparr>move_row = 2, move_col = 3, move_flips = 1\<rparr> \<in> set (game_getValidMoves initialGame BLACK)"
    by code_simp
  have v: "isValidPosition 3 3" "isValidPosition 4 4" by code_simp+
  have f: "game_getFlips initialGame 2 3 BLACK = [(3, 3)]" by code_simp
  show ?thesis
    using wf_initialGame m v f
      makeMove_writes_board [of initialGame BLACK "\<lparr>move_row = 2, move_col = 3, move_flips = 1\<rparr>"]
    by simp
qed

text \<open>
  The first move of a game, Black on (2,3): the game's board after the call has Black on
  (2,3) and (3,3), where it had an empty cell and a white disc before.
\<close>

theorem makeMove_mutates_counterexample:
  "wf_board (board initialGame)
   \<and> \<lparr>move_row = 2, move_col = 3, move_flips = 1\<rparr> \<in> set (game_getValidMoves initialGame BLACK)
   \<and> fst (makeMove initialGame 2 3 BLACK) = True
   \<and> cellAt (board initialGame) 2 3 = EMPTY
   \<and> cellAt (board (snd (makeMove initialGame 2 3 BLACK))) 2 3 = BLACK
   \<and> cellAt (board initialGame) 3 3 = WHITE
   \<and> cellAt (board (snd (makeMove initialGame 2 3 BLACK))) 3 3 = BLACK
   \<and> board (snd (makeMove initialGame 2 3 BLACK)) \<noteq> board initialGame"
  by code_simp


section \<open>The cutoffs alone\<close>

lemma NegInf_least [simp]: "NegInf \<le> x"
  by simp

lemma PosInf_greatest [simp]: "x \<le> PosInf"
  by (cases x) simp_all

lemma max_NegInf [simp]: "max NegInf x = x" "max x NegInf = x"
  by (simp_all add: max_def antisym)

lemma min_PosInf [simp]: "min PosInf x = x" "min x PosInf = x"
  by (simp_all add: min_def antisym)

lemma less_PosInf: "x < PosInf \<longleftrightarrow> x \<noteq> PosInf"
  by (cases x) (simp_all add: less_jsnum_def)

lemma greater_NegInf: "NegInf < x \<longleftrightarrow> x \<noteq> NegInf"
  by (cases x) (simp_all add: less_jsnum_def)

lemma max_loop_clamp:
  fixes child :: "move \<Rightarrow> jsnum \<Rightarrow> jsnum \<Rightarrow> jsnum"
  assumes "\<And>m a. m \<in> set ms \<Longrightarrow> a < beta \<Longrightarrow>
             max a (min (child m a beta) beta) = max a (min (v m) beta)"
    and "a = max alpha0 M" and "a < beta" and "max alpha0 M = max alpha0 V"
  shows "max alpha0 (min (max_loop child ms M a beta) beta)
         = max alpha0 (min (foldl max V (map v ms)) beta)"
  using assms
proof (induction ms arbitrary: M a V)
  case Nil
  then show ?case
    by (auto simp: max_def min_def split: if_splits)
next
  case (Cons m ms)
  let ?s = "child m a beta"
  have rel: "max a (min ?s beta) = max a (min (v m) beta)"
    using Cons.prems(1) [of m a] Cons.prems(3) by simp
  have mono: "v m \<le> foldl max (max V (v m)) (map v ms)"
  proof -
    have "x \<le> foldl max x ys" for x :: jsnum and ys
      by (induction ys arbitrary: x) (auto intro: order_trans [OF max.cobounded1])
    then show ?thesis
      by (meson max.cobounded2 order_trans)
  qed
  show ?case
  proof (cases "beta \<le> max a ?s")
    case True
    then have s: "beta \<le> ?s" using Cons.prems(3) by (auto simp: max_def split: if_splits)
    then have "beta \<le> v m"
      using rel Cons.prems(3) by (auto simp: max_def min_def split: if_splits)
    then have "beta \<le> foldl max (max V (v m)) (map v ms)"
      using mono by (rule order_trans)
    moreover have "beta \<le> max M ?s" using s by (simp add: max.coboundedI2)
    moreover have "alpha0 \<le> beta" using Cons.prems(2,3) by (auto simp: max_def split: if_splits)
    ultimately show ?thesis
      using True by (simp add: Let_def min_absorb2 max_absorb2)
  next
    case False
    then have lt: "max a ?s < beta" by (simp only: not_le)
    then have sl: "?s < beta" by simp
    have "max a (min (v m) beta) < beta"
      using rel lt sl by (simp add: min_absorb1 less_imp_le)
    then have vl: "v m < beta"
      by (auto simp: max_def min_def split: if_splits)
    have eq: "max a ?s = max a (v m)"
      using rel sl vl by (simp add: min_absorb1 less_imp_le)
    have i1: "max a ?s = max alpha0 (max M ?s)"
      using Cons.prems(2) by (simp add: max.assoc)
    have i2: "max alpha0 (max M ?s) = max alpha0 (max V (v m))"
    proof -
      have "max alpha0 (max M ?s) = max a ?s" using i1 by simp
      also have "\<dots> = max (max alpha0 V) (v m)"
        using eq Cons.prems(2,4) by simp
      finally show ?thesis by (simp add: max.assoc)
    qed
    have "max alpha0 (min (max_loop child ms (max M ?s) (max a ?s) beta) beta)
          = max alpha0 (min (foldl max (max V (v m)) (map v ms)) beta)"
      using Cons.prems(1) by (intro Cons.IH [OF _ i1 lt i2]) simp_all
    then show ?thesis
      using False by (simp add: Let_def)
  qed
qed

lemma min_loop_clamp:
  fixes child :: "move \<Rightarrow> jsnum \<Rightarrow> jsnum \<Rightarrow> jsnum"
  assumes "\<And>m b. m \<in> set ms \<Longrightarrow> alpha < b \<Longrightarrow>
             max alpha (min (child m alpha b) b) = max alpha (min (v m) b)"
    and "b = min beta0 M" and "alpha < b" and "min beta0 M = min beta0 V"
  shows "max alpha (min (min_loop child ms M alpha b) beta0)
         = max alpha (min (foldl min V (map v ms)) beta0)"
  using assms
proof (induction ms arbitrary: M b V)
  case Nil
  then show ?case
    by (simp add: min.commute)
next
  case (Cons m ms)
  let ?s = "child m alpha b"
  have rel: "max alpha (min ?s b) = max alpha (min (v m) b)"
    using Cons.prems(1) [of m b] Cons.prems(3) by simp
  have mono: "foldl min (min V (v m)) (map v ms) \<le> v m"
  proof -
    have "foldl min x ys \<le> x" for x :: jsnum and ys
      by (induction ys arbitrary: x) (auto intro: order_trans [OF _ min.cobounded1])
    then show ?thesis
      by (meson min.cobounded2 order_trans)
  qed
  show ?case
  proof (cases "min b ?s \<le> alpha")
    case True
    then have s: "?s \<le> alpha" using Cons.prems(3) by (auto simp: min_def split: if_splits)
    then have "v m \<le> alpha"
      using rel Cons.prems(3) by (auto simp: max_def min_def split: if_splits)
    with mono have "foldl min (min V (v m)) (map v ms) \<le> alpha"
      by (rule order_trans)
    then have t: "min (foldl min (min V (v m)) (map v ms)) beta0 \<le> alpha"
      by (simp add: min.coboundedI1)
    have "min M ?s \<le> alpha" using s by (simp add: min.coboundedI2)
    then have "min (min M ?s) beta0 \<le> alpha"
      by (simp add: min.coboundedI1)
    then show ?thesis
      using True t by (simp add: Let_def max_absorb1)
  next
    case False
    then have lt: "alpha < min b ?s" by (simp only: not_le)
    then have sl: "alpha < ?s" by simp
    have e1: "max alpha (min ?s b) = min b ?s"
      using lt by (simp add: max_absorb2 less_imp_le min.commute)
    then have "alpha < max alpha (min (v m) b)"
      using rel lt by simp
    then have e2: "max alpha (min (v m) b) = min b (v m)"
      by (auto simp: max_def min_def split: if_splits)
    have eq: "min b ?s = min b (v m)"
      using rel e1 e2 by simp
    have i1: "min b ?s = min beta0 (min M ?s)"
      using Cons.prems(2) by (simp add: min.assoc)
    have i2: "min beta0 (min M ?s) = min beta0 (min V (v m))"
    proof -
      have "min beta0 (min M ?s) = min b ?s" using i1 by simp
      also have "\<dots> = min (min beta0 V) (v m)"
        using eq Cons.prems(2,4) by simp
      finally show ?thesis by (simp add: min.assoc)
    qed
    have "max alpha (min (min_loop child ms (min M ?s) alpha (min b ?s)) beta0)
          = max alpha (min (foldl min (min V (v m)) (map v ms)) beta0)"
      using Cons.prems(1) by (intro Cons.IH [OF _ i1 lt i2]) simp_all
    then show ?thesis
      using False by (simp add: Let_def)
  qed
qed

lemma minimax_clamp:
  assumes "alpha < beta"
  shows "max alpha (min (minimax b d maximizing alpha beta player) beta)
         = max alpha (min (unprunedMinimax b d maximizing player) beta)"
  using assms
proof (induction d arbitrary: b maximizing alpha beta)
  case 0
  then show ?case by simp
next
  case (Suc d)
  let ?cur = "if maximizing then player else (if player = WHITE then BLACK else WHITE)"
  let ?moves = "ai_getValidMovesForBoard b ?cur"
  let ?opp = "if player = WHITE then BLACK else WHITE"
  let ?next = "\<lambda>move. makeTestMove (ai_copyBoard b) (move_row move) (move_col move) ?cur"
  show ?case
  proof (cases "?moves = []")
    case True
    show ?thesis
    proof (cases "ai_getValidMovesForBoard b ?opp = []")
      case t: True
      show ?thesis
        using True t by (simp add: Let_def)
    next
      case f: False
      have "max alpha (min (minimax b d (\<not> maximizing) alpha beta player) beta)
            = max alpha (min (unprunedMinimax b d (\<not> maximizing) player) beta)"
        by (rule Suc.IH [OF Suc.prems])
      then show ?thesis
        using True f by (simp add: Let_def)
    qed
  next
    case False
    show ?thesis
    proof (cases maximizing)
      case mx: True
      have "max alpha (min (max_loop (\<lambda>move a b'. minimax (?next move) d False a b' player)
                              ?moves NegInf alpha beta) beta)
            = max alpha (min (foldl max NegInf (map (\<lambda>move. unprunedMinimax (?next move) d False player) ?moves)) beta)"
        by (rule max_loop_clamp) (simp_all add: Suc.IH Suc.prems)
      then show ?thesis
        using False mx by (simp add: Let_def)
    next
      case mn: False
      have "max alpha (min (min_loop (\<lambda>move a b'. minimax (?next move) d True a b' player)
                              ?moves PosInf alpha beta) beta)
            = max alpha (min (foldl min PosInf (map (\<lambda>move. unprunedMinimax (?next move) d True player) ?moves)) beta)"
        by (rule min_loop_clamp) (simp_all add: Suc.IH Suc.prems)
      then show ?thesis
        using False mn by (simp add: Let_def)
    qed
  qed
qed

lemma max_Fin: "M \<noteq> PosInf \<Longrightarrow> \<exists>j. max M (Fin i) = Fin j"
  by (cases M) (simp_all add: max_def)

lemma min_Fin: "M \<noteq> NegInf \<Longrightarrow> \<exists>j. min M (Fin i) = Fin j"
  by (cases M) (simp_all add: min_def)

lemma max_loop_finite:
  assumes "\<And>m a b. \<exists>i. child m a b = Fin i"
    and "M \<noteq> PosInf" and "ms = [] \<longrightarrow> (\<exists>i. M = Fin i)"
  shows "\<exists>i. max_loop child ms M a beta = Fin i"
  using assms(2,3)
proof (induction ms arbitrary: M a)
  case Nil
  then show ?case by simp
next
  case (Cons m ms)
  obtain i where s: "child m a beta = Fin i" using assms(1) by blast
  obtain j where M': "max M (Fin i) = Fin j" using max_Fin [OF Cons.prems(1)] by blast
  have "\<exists>k. max_loop child ms (Fin j) (max a (Fin i)) beta = Fin k"
    by (rule Cons.IH) simp_all
  then show ?case
    by (simp add: Let_def s M')
qed

lemma min_loop_finite:
  assumes "\<And>m a b. \<exists>i. child m a b = Fin i"
    and "M \<noteq> NegInf" and "ms = [] \<longrightarrow> (\<exists>i. M = Fin i)"
  shows "\<exists>i. min_loop child ms M alpha b = Fin i"
  using assms(2,3)
proof (induction ms arbitrary: M b)
  case Nil
  then show ?case by simp
next
  case (Cons m ms)
  obtain i where s: "child m alpha b = Fin i" using assms(1) by blast
  obtain j where M': "min M (Fin i) = Fin j" using min_Fin [OF Cons.prems(1)] by blast
  have "\<exists>k. min_loop child ms (Fin j) alpha (min b (Fin i)) = Fin k"
    by (rule Cons.IH) simp_all
  then show ?case
    by (simp add: Let_def s M')
qed

lemma minimax_finite: "\<exists>i. minimax b d maximizing alpha beta player = Fin i"
proof (induction d arbitrary: b maximizing alpha beta)
  case 0
  then show ?case by simp
next
  case (Suc d)
  let ?cur = "if maximizing then player else (if player = WHITE then BLACK else WHITE)"
  let ?moves = "ai_getValidMovesForBoard b ?cur"
  let ?next = "\<lambda>move. makeTestMove (ai_copyBoard b) (move_row move) (move_col move) ?cur"
  show ?case
  proof (cases "?moves = []")
    case True
    then show ?thesis
      using Suc.IH [of b "\<not> maximizing" alpha beta] by (simp add: Let_def)
  next
    case False
    show ?thesis
    proof (cases maximizing)
      case mx: True
      have "\<exists>i. max_loop (\<lambda>move a b'. minimax (?next move) d False a b' player) ?moves NegInf alpha beta = Fin i"
        by (rule max_loop_finite) (simp_all add: Suc.IH False)
      then show ?thesis
        using False mx by (simp add: Let_def)
    next
      case mn: False
      have "\<exists>i. min_loop (\<lambda>move a b'. minimax (?next move) d True a b' player) ?moves PosInf alpha beta = Fin i"
        by (rule min_loop_finite) (simp_all add: Suc.IH False)
      then show ?thesis
        using False mn by (simp add: Let_def)
    qed
  qed
qed

lemma select_loop_eq_unpruned:
  assumes "bestScore \<noteq> PosInf"
  shows "selectMinimax_loop b player ms bestMove bestScore bestScore PosInf
         = unprunedSelect_loop b player ms bestMove bestScore"
  using assms
proof (induction ms arbitrary: bestMove bestScore)
  case Nil
  then show ?case by simp
next
  case (Cons m ms)
  let ?tb = "makeTestMove (ai_copyBoard b) (move_row m) (move_col m) player"
  let ?s = "minimax ?tb (maxDepth - 1) False bestScore PosInf player"
  let ?v = "unprunedMinimax ?tb (maxDepth - 1) False player"
  obtain i where fin: "?s = Fin i" using minimax_finite by blast
  have "bestScore < PosInf" using Cons.prems by (simp add: less_PosInf)
  from minimax_clamp [OF this, of ?tb "maxDepth - 1" False player]
  have rel: "max bestScore ?s = max bestScore ?v" by simp
  show ?case
  proof (cases "?s > bestScore")
    case True
    then have "max bestScore ?v = ?s" using rel by (simp add: max_absorb2 less_imp_le)
    with True have v: "?v = ?s" by (auto simp: max_def split: if_splits)
    have "selectMinimax_loop b player ms (Some m) ?s ?s PosInf
          = unprunedSelect_loop b player ms (Some m) ?s"
      using fin by (intro Cons.IH) simp
    then show ?thesis
      using True v by (simp add: Let_def max_absorb2 less_imp_le)
  next
    case False
    then have le: "?s \<le> bestScore" by (simp add: not_less)
    then have "max bestScore ?v = bestScore" using rel by (simp add: max_absorb1)
    then have v: "\<not> ?v > bestScore" by (auto simp: max_def split: if_splits)
    have "selectMinimax_loop b player ms bestMove bestScore bestScore PosInf
          = unprunedSelect_loop b player ms bestMove bestScore"
      by (rule Cons.IH [OF Cons.prems])
    then show ?thesis
      using False v le by (simp add: Let_def max_absorb1)
  qed
qed

lemma select_loop_chooses:
  assumes "selectMinimax_loop b player ms bestMove bestScore alpha beta = (bm, bs)"
    and "(bestMove = None \<and> bestScore = NegInf \<and> ms \<noteq> [])
         \<or> (\<exists>m i. bestMove = Some m \<and> m \<in> M \<and> bestScore = Fin i)"
    and "set ms \<subseteq> M"
  shows "\<exists>m i. bm = Some m \<and> m \<in> M \<and> bs = Fin i"
  using assms
proof (induction ms arbitrary: bestMove bestScore alpha)
  case Nil
  then show ?case by simp
next
  case (Cons m ms)
  let ?tb = "makeTestMove (ai_copyBoard b) (move_row m) (move_col m) player"
  let ?s = "minimax ?tb (maxDepth - 1) False alpha beta player"
  obtain i where fin: "?s = Fin i" using minimax_finite by blast
  let ?best = "if ?s > bestScore then (Some m, ?s) else (bestMove, bestScore)"
  have run: "selectMinimax_loop b player ms (fst ?best) (snd ?best) (max alpha ?s) beta = (bm, bs)"
    using Cons.prems(1) by (simp only: selectMinimax_loop.simps Let_def)
  have "\<exists>m' j. fst ?best = Some m' \<and> m' \<in> M \<and> snd ?best = Fin j"
  proof (cases "?s > bestScore")
    case True
    then show ?thesis using fin Cons.prems(3) by auto
  next
    case False
    then have "bestScore \<noteq> NegInf" using fin by (auto simp: less_jsnum_def)
    then show ?thesis using False Cons.prems(2) by auto
  qed
  then have "(fst ?best = None \<and> snd ?best = NegInf \<and> ms \<noteq> [])
         \<or> (\<exists>m i. fst ?best = Some m \<and> m \<in> M \<and> snd ?best = Fin i)"
    by blast
  from Cons.IH [OF run this] Cons.prems(3) show ?case by simp
qed

text \<open>
  The cutoffs by themselves change nothing: the root loop of \<open>selectMinimaxMove\<close> ends
  with the same move and score as the code's search without the two \<open>break\<close> statements.
\<close>

lemma pruned_selection_eq_unpruned:
  assumes "game_getValidMoves g player \<noteq> []"
  shows "selectMinimax_loop b player (game_getValidMoves g player) None NegInf NegInf PosInf
           = unprunedSelect_loop b player (game_getValidMoves g player) None NegInf
    \<and> selectMinimaxMove b player g = unprunedSelectMove b player g
    \<and> (\<exists>m i. m \<in> set (game_getValidMoves g player) \<and> selectMinimaxMove b player g = Some m
          \<and> selectMinimax_loop b player (game_getValidMoves g player) None NegInf NegInf PosInf
              = (Some m, Fin i))"
proof -
  let ?ms = "game_getValidMoves g player"
  have eq: "selectMinimax_loop b player ?ms None NegInf NegInf PosInf
            = unprunedSelect_loop b player ?ms None NegInf"
    by (rule select_loop_eq_unpruned) simp
  obtain bm bs where r: "selectMinimax_loop b player ?ms None NegInf NegInf PosInf = (bm, bs)"
    by (cases "selectMinimax_loop b player ?ms None NegInf NegInf PosInf")
  have "\<exists>m i. bm = Some m \<and> m \<in> set ?ms \<and> bs = Fin i"
    by (rule select_loop_chooses [OF r]) (simp_all add: assms)
  then obtain m i where mi: "bm = Some m" "m \<in> set ?ms" "bs = Fin i"
    by blast
  have sel: "selectMinimaxMove b player g = Some m"
    by (simp add: selectMinimaxMove_def r mi(1))
  have full: "selectMinimaxMove b player g = unprunedSelectMove b player g"
    by (simp only: selectMinimaxMove_def unprunedSelectMove_def eq)
  have "selectMinimax_loop b player ?ms None NegInf NegInf PosInf = (Some m, Fin i)"
    by (simp only: r mi(1) mi(3))
  with eq full sel mi(2) show ?thesis
    by blast
qed

section \<open>The selection against the full-width minimax\<close>

text \<open>The moves of \<open>endgameMoves\<close> are all accepted and lead to \<open>endgameBoard\<close>.\<close>

lemma endgame_reached: "playMoves initialGame endgameMoves = Some endgameGame"
  by code_simp

lemma endgame_wf: "wf_board endgameBoard"
  by code_simp

lemma endgame_root_moves:
  "game_getValidMoves endgameGame WHITE =
     [\<lparr>move_row = 0, move_col = 4, move_flips = 5\<rparr>,
      \<lparr>move_row = 6, move_col = 0, move_flips = 7\<rparr>,
      \<lparr>move_row = 7, move_col = 0, move_flips = 2\<rparr>]"
  by code_simp

text \<open>Nodes of the code's search with a single move: the window plays no part.\<close>

lemma minimax_single_max:
  assumes "ai_getValidMovesForBoard b player = [m]"
  shows "minimax b (Suc d) True alpha beta player
         = minimax (trialBoard b (move_row m) (move_col m) player) d False alpha beta player"
  using assms by (simp add: Let_def)

lemma minimax_single_min:
  assumes "ai_getValidMovesForBoard b BLACK = [m]"
  shows "minimax b (Suc d) False alpha beta WHITE
         = minimax (trialBoard b (move_row m) (move_col m) BLACK) d True alpha beta WHITE"
  using assms by (simp add: Let_def)

lemma minimax_without_any_move:
  assumes "ai_getValidMovesForBoard b BLACK = []" and "ai_getValidMovesForBoard b WHITE = []"
  shows "minimax b d maximizing alpha beta WHITE = Fin (evaluateBoard b WHITE)"
  using assms by (cases d) (simp_all add: Let_def)

text \<open>Nodes of the full-width reference.\<close>

lemma fullMinimax_pass:
  assumes "ai_getValidMovesForBoard b BLACK = []" and "ai_getValidMovesForBoard b WHITE \<noteq> []"
  shows "fullMinimax b (Suc d) False WHITE = fullMinimax b d True WHITE"
  using assms by (simp add: Let_def)

lemma fullMinimax_without_any_move:
  assumes "ai_getValidMovesForBoard b BLACK = []" and "ai_getValidMovesForBoard b WHITE = []"
  shows "fullMinimax b d maximizing WHITE = Fin (evaluateBoard b WHITE)"
  using assms by (cases d) (simp_all add: Let_def)

lemma fullMinimax_max_node:
  assumes "ai_getValidMovesForBoard b WHITE = m # ms"
  shows "fullMinimax b (Suc d) True WHITE
         = foldl max NegInf
             (map (\<lambda>move. fullMinimax (trialBoard b (move_row move) (move_col move) WHITE) d False WHITE)
                  (m # ms))"
  using assms by (simp add: Let_def)

lemma fullMinimax_min_node:
  assumes "ai_getValidMovesForBoard b BLACK = m # ms"
  shows "fullMinimax b (Suc d) False WHITE
         = foldl min PosInf
             (map (\<lambda>move. fullMinimax (trialBoard b (move_row move) (move_col move) BLACK) d True WHITE)
                  (m # ms))"
  using assms by (simp add: Let_def)

text \<open>The boards of the tree below \<open>endgameBoard\<close>, their moves and their evaluations.\<close>

lemma after04:
  "ai_getValidMovesForBoard (trialBoard endgameBoard 0 4 WHITE) BLACK = []"
  "ai_getValidMovesForBoard (trialBoard endgameBoard 0 4 WHITE) WHITE =
     [\<lparr>move_row = 6, move_col = 0, move_flips = 7\<rparr>, \<lparr>move_row = 7, move_col = 0, move_flips = 2\<rparr>]"
  "evaluateBoard (trialBoard endgameBoard 0 4 WHITE) WHITE = 1018"
  by code_simp+

lemma after04_60:
  "ai_getValidMovesForBoard (trialBoard (trialBoard endgameBoard 0 4 WHITE) 6 0 WHITE) BLACK =
     [\<lparr>move_row = 7, move_col = 0, move_flips = 1\<rparr>]"
  "evaluateBoard (trialBoard (trialBoard (trialBoard endgameBoard 0 4 WHITE) 6 0 WHITE) 7 0 BLACK) WHITE = 798"
  by code_simp+

lemma after04_70:
  "ai_getValidMovesForBoard (trialBoard (trialBoard endgameBoard 0 4 WHITE) 7 0 WHITE) BLACK =
     [\<lparr>move_row = 6, move_col = 0, move_flips = 1\<rparr>]"
  "evaluateBoard (trialBoard (trialBoard (trialBoard endgameBoard 0 4 WHITE) 7 0 WHITE) 6 0 BLACK) WHITE = 1268"
  by code_simp+

lemma after60:
  "ai_getValidMovesForBoard (trialBoard endgameBoard 6 0 WHITE) BLACK =
     [\<lparr>move_row = 7, move_col = 0, move_flips = 1\<rparr>]"
  "ai_getValidMovesForBoard (trialBoard (trialBoard endgameBoard 6 0 WHITE) 7 0 BLACK) WHITE =
     [\<lparr>move_row = 0, move_col = 4, move_flips = 5\<rparr>]"
  "ai_getValidMovesForBoard (trialBoard (trialBoard (trialBoard endgameBoard 6 0 WHITE) 7 0 BLACK) 0 4 WHITE) BLACK = []"
  "ai_getValidMovesForBoard (trialBoard (trialBoard (trialBoard endgameBoard 6 0 WHITE) 7 0 BLACK) 0 4 WHITE) WHITE = []"
  "evaluateBoard (trialBoard (trialBoard (trialBoard endgameBoard 6 0 WHITE) 7 0 BLACK) 0 4 WHITE) WHITE = 798"
  by code_simp+

lemma after70:
  "ai_getValidMovesForBoard (trialBoard endgameBoard 7 0 WHITE) BLACK =
     [\<lparr>move_row = 6, move_col = 0, move_flips = 1\<rparr>]"
  "ai_getValidMovesForBoard (trialBoard (trialBoard endgameBoard 7 0 WHITE) 6 0 BLACK) WHITE =
     [\<lparr>move_row = 0, move_col = 4, move_flips = 5\<rparr>]"
  "ai_getValidMovesForBoard (trialBoard (trialBoard (trialBoard endgameBoard 7 0 WHITE) 6 0 BLACK) 0 4 WHITE) BLACK = []"
  "ai_getValidMovesForBoard (trialBoard (trialBoard (trialBoard endgameBoard 7 0 WHITE) 6 0 BLACK) 0 4 WHITE) WHITE = []"
  "evaluateBoard (trialBoard (trialBoard (trialBoard endgameBoard 7 0 WHITE) 6 0 BLACK) 0 4 WHITE) WHITE = 1268"
  by code_simp+

text \<open>The code's values of the three root moves, for every window.\<close>

lemma code_value_04:
  "minimax (trialBoard endgameBoard 0 4 WHITE) (Suc d) False alpha beta WHITE = Fin 1018"
proof -
  have "ai_getValidMovesForBoard (trialBoard endgameBoard 0 4 WHITE)
          (if WHITE = WHITE then BLACK else WHITE) = []"
    by (simp add: after04(1))
  from minimax_min_node_without_moves [OF this] show ?thesis
    by (simp only: after04(3))
qed

lemma code_value_60:
  "minimax (trialBoard endgameBoard 6 0 WHITE) (Suc (Suc d)) False alpha beta WHITE = Fin 798"
proof -
  have "minimax (trialBoard endgameBoard 6 0 WHITE) (Suc (Suc d)) False alpha beta WHITE
        = minimax (trialBoard (trialBoard endgameBoard 6 0 WHITE) 7 0 BLACK) (Suc d) True alpha beta WHITE"
    by (simp only: minimax_single_min [OF after60(1)] move.select_convs)
  also have "\<dots> = minimax (trialBoard (trialBoard (trialBoard endgameBoard 6 0 WHITE) 7 0 BLACK) 0 4 WHITE)
                        d False alpha beta WHITE"
    by (simp only: minimax_single_max [OF after60(2)] move.select_convs)
  also have "\<dots> = Fin 798"
    by (simp only: minimax_without_any_move [OF after60(3) after60(4)] after60(5))
  finally show ?thesis .
qed

lemma code_value_70:
  "minimax (trialBoard endgameBoard 7 0 WHITE) (Suc (Suc d)) False alpha beta WHITE = Fin 1268"
proof -
  have "minimax (trialBoard endgameBoard 7 0 WHITE) (Suc (Suc d)) False alpha beta WHITE
        = minimax (trialBoard (trialBoard endgameBoard 7 0 WHITE) 6 0 BLACK) (Suc d) True alpha beta WHITE"
    by (simp only: minimax_single_min [OF after70(1)] move.select_convs)
  also have "\<dots> = minimax (trialBoard (trialBoard (trialBoard endgameBoard 7 0 WHITE) 6 0 BLACK) 0 4 WHITE)
                        d False alpha beta WHITE"
    by (simp only: minimax_single_max [OF after70(2)] move.select_convs)
  also have "\<dots> = Fin 1268"
    by (simp only: minimax_without_any_move [OF after70(3) after70(4)] after70(5))
  finally show ?thesis .
qed

text \<open>The values of the three root moves in the full-width reference.\<close>

lemma full_value_04:
  "fullMinimax (trialBoard endgameBoard 0 4 WHITE) (Suc (Suc (Suc 0))) False WHITE = Fin 1268"
proof -
  have "fullMinimax (trialBoard endgameBoard 0 4 WHITE) (Suc (Suc (Suc 0))) False WHITE
        = fullMinimax (trialBoard endgameBoard 0 4 WHITE) (Suc (Suc 0)) True WHITE"
    by (rule fullMinimax_pass) (simp_all add: after04)
  also have "\<dots> = foldl max NegInf
        [fullMinimax (trialBoard (trialBoard endgameBoard 0 4 WHITE) 6 0 WHITE) (Suc 0) False WHITE,
         fullMinimax (trialBoard (trialBoard endgameBoard 0 4 WHITE) 7 0 WHITE) (Suc 0) False WHITE]"
    by (simp only: fullMinimax_max_node [OF after04(2)] list.map move.select_convs)
  also have "fullMinimax (trialBoard (trialBoard endgameBoard 0 4 WHITE) 6 0 WHITE) (Suc 0) False WHITE = Fin 798"
    by (simp only: fullMinimax_min_node [OF after04_60(1)] list.map move.select_convs
          fullMinimax.simps(1) after04_60(2) foldl.simps min_PosInf)
  also have "fullMinimax (trialBoard (trialBoard endgameBoard 0 4 WHITE) 7 0 WHITE) (Suc 0) False WHITE = Fin 1268"
    by (simp only: fullMinimax_min_node [OF after04_70(1)] list.map move.select_convs
          fullMinimax.simps(1) after04_70(2) foldl.simps min_PosInf)
  also have "foldl max NegInf [Fin 798, Fin 1268] = Fin 1268"
    by (simp add: max_def)
  finally show ?thesis .
qed

lemma full_value_60:
  "fullMinimax (trialBoard endgameBoard 6 0 WHITE) (Suc (Suc (Suc 0))) False WHITE = Fin 798"
  by (simp only: fullMinimax_min_node [OF after60(1)] fullMinimax_max_node [OF after60(2)]
        fullMinimax_without_any_move [OF after60(3) after60(4)] after60(5)
        list.map move.select_convs foldl.simps min_PosInf max_NegInf)

lemma full_value_70:
  "fullMinimax (trialBoard endgameBoard 7 0 WHITE) (Suc (Suc (Suc 0))) False WHITE = Fin 1268"
  by (simp only: fullMinimax_min_node [OF after70(1)] fullMinimax_max_node [OF after70(2)]
        fullMinimax_without_any_move [OF after70(3) after70(4)] after70(5)
        list.map move.select_convs foldl.simps min_PosInf max_NegInf)

lemma depth3: "maxDepth - 1 = Suc (Suc (Suc 0))"
  by (simp add: maxDepth_def)

lemma endgame_code_choice:
  "selectMinimax_loop endgameBoard WHITE (game_getValidMoves endgameGame WHITE) None NegInf NegInf PosInf
   = (Some \<lparr>move_row = 7, move_col = 0, move_flips = 2\<rparr>, Fin 1268)"
  by (simp only: endgame_root_moves selectMinimax_loop.simps Let_def depth3 move.select_convs
        code_value_04 code_value_60 code_value_70)
     (simp add: less_jsnum_def max_def)

lemma endgame_full_choice:
  "fullSelect_loop endgameBoard WHITE (game_getValidMoves endgameGame WHITE) None NegInf
   = (Some \<lparr>move_row = 0, move_col = 4, move_flips = 5\<rparr>, Fin 1268)"
  by (simp only: endgame_root_moves fullSelect_loop.simps Let_def depth3 move.select_convs
        full_value_04 full_value_60 full_value_70)
     (simp add: less_jsnum_def)

text \<open>
  C6, at an input where the code departs from it. After the 57 moves of \<open>endgameMoves\<close>
  White is to move on \<open>endgameBoard\<close> and has the moves (0,4), (6,0) and (7,0). The root
  loop of \<open>selectMinimaxMove\<close> ends with the move (7,0) and the score 1268; the
  full-width minimax without cutoffs ends with the move (0,4) and the score 1268. After
  (0,4) Black has no move and White has two: the code's search stops there with the
  static evaluation 1018, the full-width minimax passes and finds 1268.
\<close>

theorem pruned_selection_departs_from_full_width:
  "playMoves initialGame endgameMoves = Some endgameGame
   \<and> board endgameGame = endgameBoard
   \<and> wf_board endgameBoard
   \<and> game_getValidMoves endgameGame WHITE =
       [\<lparr>move_row = 0, move_col = 4, move_flips = 5\<rparr>,
        \<lparr>move_row = 6, move_col = 0, move_flips = 7\<rparr>,
        \<lparr>move_row = 7, move_col = 0, move_flips = 2\<rparr>]
   \<and> selectMinimax_loop endgameBoard WHITE (game_getValidMoves endgameGame WHITE) None NegInf NegInf PosInf
       = (Some \<lparr>move_row = 7, move_col = 0, move_flips = 2\<rparr>, Fin 1268)
   \<and> selectMinimaxMove endgameBoard WHITE endgameGame = Some \<lparr>move_row = 7, move_col = 0, move_flips = 2\<rparr>
   \<and> fullSelect_loop endgameBoard WHITE (game_getValidMoves endgameGame WHITE) None NegInf
       = (Some \<lparr>move_row = 0, move_col = 4, move_flips = 5\<rparr>, Fin 1268)
   \<and> fullSelectMove endgameBoard WHITE endgameGame = Some \<lparr>move_row = 0, move_col = 4, move_flips = 5\<rparr>
   \<and> selectMinimaxMove endgameBoard WHITE endgameGame \<noteq> fullSelectMove endgameBoard WHITE endgameGame
   \<and> ai_getValidMovesForBoard (trialBoard endgameBoard 0 4 WHITE) BLACK = []
   \<and> ai_getValidMovesForBoard (trialBoard endgameBoard 0 4 WHITE) WHITE \<noteq> []
   \<and> minimax (trialBoard endgameBoard 0 4 WHITE) (maxDepth - 1) False NegInf PosInf WHITE = Fin 1018
   \<and> fullMinimax (trialBoard endgameBoard 0 4 WHITE) (maxDepth - 1) False WHITE = Fin 1268"
proof -
  have b: "board endgameGame = endgameBoard"
    by (simp add: endgameGame_def)
  have c: "selectMinimaxMove endgameBoard WHITE endgameGame = Some \<lparr>move_row = 7, move_col = 0, move_flips = 2\<rparr>"
    by (simp only: selectMinimaxMove_def endgame_code_choice fst_conv)
  have f: "fullSelectMove endgameBoard WHITE endgameGame = Some \<lparr>move_row = 0, move_col = 4, move_flips = 5\<rparr>"
    by (simp only: fullSelectMove_def endgame_full_choice fst_conv)
  have ne: "selectMinimaxMove endgameBoard WHITE endgameGame \<noteq> fullSelectMove endgameBoard WHITE endgameGame"
    by (simp add: c f)
  have w: "ai_getValidMovesForBoard (trialBoard endgameBoard 0 4 WHITE) WHITE \<noteq> []"
    by (simp add: after04(2))
  have cv: "minimax (trialBoard endgameBoard 0 4 WHITE) (maxDepth - 1) False NegInf PosInf WHITE = Fin 1018"
    by (simp only: depth3 code_value_04)
  have fv: "fullMinimax (trialBoard endgameBoard 0 4 WHITE) (maxDepth - 1) False WHITE = Fin 1268"
    by (simp only: depth3 full_value_04)
  show ?thesis
    by (intro conjI endgame_reached b endgame_wf endgame_root_moves endgame_code_choice c
          endgame_full_choice f ne after04(1) w cv fv)
qed

end
